theory Spec2Isabelle
  imports Complex_Main "HOL-Library.Monad_Syntax"
begin

section \<open>JavaScript values the engine computes with\<close>

text \<open>
  The numbers that occur in the engine: edge weights, hop counts and ranks are integers,
  \<open>Infinity\<close> is the sentinel of \<open>getEdgeWeight\<close> and the initial \<open>minWeight\<close> of Prim,
  \<open>NaN\<close> is what arithmetic on \<open>undefined\<close> and \<open>Math.min\<close> on a non-numeric string give,
  and \<open>-Infinity\<close> is what a sum of weights can overflow to.
\<close>

datatype jsnum = Num int | Infinity | NegInfinity | NaN

text \<open>\<open>a < b\<close> on numbers: every comparison with \<open>NaN\<close> is false.\<close>

fun js_lt :: "jsnum \<Rightarrow> jsnum \<Rightarrow> bool" where
  "js_lt (Num a) (Num b) = (a < b)"
| "js_lt (Num a) Infinity = True"
| "js_lt NegInfinity (Num b) = True"
| "js_lt NegInfinity Infinity = True"
| "js_lt _ _ = False"

text \<open>
  \<open>a + b\<close> on counts (hop counts and ranks, which the number of nodes bounds): the sum of
  two integers, with the rules of the infinities and \<open>NaN\<close>.
\<close>

fun js_add :: "jsnum \<Rightarrow> jsnum \<Rightarrow> jsnum" where
  "js_add (Num a) (Num b) = Num (a + b)"
| "js_add NaN _ = NaN"
| "js_add _ NaN = NaN"
| "js_add Infinity NegInfinity = NaN"
| "js_add NegInfinity Infinity = NaN"
| "js_add Infinity _ = Infinity"
| "js_add _ Infinity = Infinity"
| "js_add NegInfinity _ = NegInfinity"
| "js_add _ NegInfinity = NegInfinity"

text \<open>
  Arithmetic on weights. A weight is whatever number the caller supplied, and a number is a
  double: 53 significant binary digits. Every integer up to \<open>2^53\<close> in magnitude is a double;
  beyond, the exact sum of two doubles is rounded to the nearest double, to the one with an
  even significand at a tie, and a result that reaches \<open>2^1024\<close> is an infinity.
\<close>

function binary_digits :: "int \<Rightarrow> nat" where
  "binary_digits n = (if n \<le> 0 then 0 else Suc (binary_digits (n div 2)))"
  by pat_completeness auto
termination
  by (relation "measure (\<lambda>n. nat n)") auto

declare binary_digits.simps [simp del]

text \<open>The double nearest to the integer \<open>m\<close>, for \<open>m\<close> not negative.\<close>

definition round_to_double :: "int \<Rightarrow> int" where
  "round_to_double m =
     (let e = binary_digits m - 53; q = m div 2 ^ e; r = m mod 2 ^ e
      in if 2 ^ e < 2 * r \<or> (2 * r = 2 ^ e \<and> odd q) then (q + 1) * 2 ^ e else q * 2 ^ e)"

definition double_of_int :: "int \<Rightarrow> jsnum" where
  "double_of_int x =
     (let m = round_to_double \<bar>x\<bar>
      in if 2 ^ 1024 \<le> m then (if x < 0 then NegInfinity else Infinity)
         else Num (if x < 0 then - m else m))"

fun double_add :: "jsnum \<Rightarrow> jsnum \<Rightarrow> jsnum" where
  "double_add (Num a) (Num b) = double_of_int (a + b)"
| "double_add NaN _ = NaN"
| "double_add _ NaN = NaN"
| "double_add Infinity NegInfinity = NaN"
| "double_add NegInfinity Infinity = NaN"
| "double_add Infinity _ = Infinity"
| "double_add _ Infinity = Infinity"
| "double_add NegInfinity _ = NegInfinity"
| "double_add _ NegInfinity = NegInfinity"

fun double_sub :: "jsnum \<Rightarrow> jsnum \<Rightarrow> jsnum" where
  "double_sub (Num a) (Num b) = double_of_int (a - b)"
| "double_sub NaN _ = NaN"
| "double_sub _ NaN = NaN"
| "double_sub Infinity Infinity = NaN"
| "double_sub NegInfinity NegInfinity = NaN"
| "double_sub Infinity _ = Infinity"
| "double_sub _ NegInfinity = Infinity"
| "double_sub NegInfinity _ = NegInfinity"
| "double_sub _ Infinity = NegInfinity"

text \<open>\<open>Math.min\<close> and \<open>Math.max\<close>: \<open>NaN\<close> if either argument is \<open>NaN\<close>.\<close>

fun Math_min :: "jsnum \<Rightarrow> jsnum \<Rightarrow> jsnum" where
  "Math_min NaN _ = NaN"
| "Math_min _ NaN = NaN"
| "Math_min NegInfinity _ = NegInfinity"
| "Math_min _ NegInfinity = NegInfinity"
| "Math_min (Num a) (Num b) = Num (min a b)"
| "Math_min (Num a) Infinity = Num a"
| "Math_min Infinity b = b"

fun Math_max :: "jsnum \<Rightarrow> jsnum \<Rightarrow> jsnum" where
  "Math_max NaN _ = NaN"
| "Math_max _ NaN = NaN"
| "Math_max Infinity _ = Infinity"
| "Math_max _ Infinity = Infinity"
| "Math_max (Num a) (Num b) = Num (max a b)"
| "Math_max (Num a) NegInfinity = Num a"
| "Math_max NegInfinity b = b"

text \<open>Decimal printing of an integer, as a template literal and \<open>toString()\<close> do.\<close>

definition digit_char :: "nat \<Rightarrow> char" where
  "digit_char d = char_of (48 + d)"

function string_of_nat :: "nat \<Rightarrow> string" where
  "string_of_nat n =
     (if n < 10 then [digit_char n] else string_of_nat (n div 10) @ [digit_char (n mod 10)])"
  by pat_completeness auto
termination
  by (relation "measure (\<lambda>n. n)") auto

declare string_of_nat.simps [simp del]

definition string_of_int :: "int \<Rightarrow> string" where
  "string_of_int i = (if i < 0 then CHR ''-'' # string_of_nat (nat (- i)) else string_of_nat (nat i))"

fun string_of_jsnum :: "jsnum \<Rightarrow> string" where
  "string_of_jsnum (Num i) = string_of_int i"
| "string_of_jsnum Infinity = ''Infinity''"
| "string_of_jsnum NegInfinity = ''-Infinity''"
| "string_of_jsnum NaN = ''NaN''"

section \<open>\<open>Map\<close> and \<open>Set\<close>: insertion-ordered containers\<close>

text \<open>
  A JavaScript \<open>Map\<close> iterates in insertion order, \<open>set\<close> on a present key keeps its
  place and replaces the value, \<open>delete\<close> removes the entry. It is an association list
  whose keys are distinct.
\<close>

type_synonym ('k, 'v) Map = "('k \<times> 'v) list"

definition Map_has :: "('k, 'v) Map \<Rightarrow> 'k \<Rightarrow> bool" where
  "Map_has m k = (map_of m k \<noteq> None)"

definition Map_get :: "('k, 'v) Map \<Rightarrow> 'k \<Rightarrow> 'v option" where
  "Map_get m k = map_of m k"

fun Map_set :: "('k, 'v) Map \<Rightarrow> 'k \<Rightarrow> 'v \<Rightarrow> ('k, 'v) Map" where
  "Map_set [] k v = [(k, v)]"
| "Map_set ((k', v') # m) k v = (if k' = k then (k, v) # m else (k', v') # Map_set m k v)"

definition Map_delete :: "('k, 'v) Map \<Rightarrow> 'k \<Rightarrow> ('k, 'v) Map" where
  "Map_delete m k = filter (\<lambda>kv. fst kv \<noteq> k) m"

definition Map_keys :: "('k, 'v) Map \<Rightarrow> 'k list" where
  "Map_keys m = map fst m"

definition Map_values :: "('k, 'v) Map \<Rightarrow> 'v list" where
  "Map_values m = map snd m"

text \<open>A \<open>Set\<close> is the list of its members in insertion order.\<close>

definition Set_add :: "'a list \<Rightarrow> 'a \<Rightarrow> 'a list" where
  "Set_add xs x = (if x \<in> set xs then xs else xs @ [x])"

section \<open>The graph (\<open>graph.js\<close>)\<close>

record node =
  node_id :: string
  node_label :: string
  node_x :: real
  node_y :: real
  node_data :: "(string \<times> string) list"

record edge =
  edge_id :: string
  source :: string
  target :: string
  weight :: int
  edge_label :: string
  directed :: bool

record graph =
  nodes :: "(string, node) Map"
  edges :: "(string, edge) Map"
  isDirected :: bool
  isWeighted :: bool
  nodeIdCounter :: int
  edgeIdCounter :: int

text \<open>
  The code throws a plain \<open>Error\<close> with a message; the constructors name the five
  situations as the specification does.
\<close>

datatype error =
  DuplicateIdError | MissingEndpointError | DuplicateEdgeError
  | UnknownNodeError | UnweightedGraphError

definition Graph_new :: graph where
  "Graph_new = \<lparr>nodes = [], edges = [], isDirected = False, isWeighted = False,
                 nodeIdCounter = 1, edgeIdCounter = 1\<rparr>"

definition setGraphType :: "graph \<Rightarrow> bool \<Rightarrow> bool \<Rightarrow> graph" where
  "setGraphType g d w = g\<lparr>isDirected := d, isWeighted := w\<rparr>"

text \<open>\<open>!id\<close> for an optional string: \<open>null\<close> and the empty string are falsy.\<close>

fun falsy :: "string option \<Rightarrow> bool" where
  "falsy None = True"
| "falsy (Some s) = (s = [])"

text \<open>
  \<open>if (!id) id = `node_${this.nodeIdCounter++}`\<close>: the id the call works with, and the
  state after the counter has been advanced (when it was).
\<close>

definition next_node_id :: "graph \<Rightarrow> string option \<Rightarrow> string \<times> graph" where
  "next_node_id g nid =
     (case nid of
        Some s \<Rightarrow> if s = [] then (''node_'' @ string_of_int (nodeIdCounter g),
                                  g\<lparr>nodeIdCounter := nodeIdCounter g + 1\<rparr>)
                  else (s, g)
      | None \<Rightarrow> (''node_'' @ string_of_int (nodeIdCounter g),
                  g\<lparr>nodeIdCounter := nodeIdCounter g + 1\<rparr>))"

definition next_edge_id :: "graph \<Rightarrow> string option \<Rightarrow> string \<times> graph" where
  "next_edge_id g eid =
     (case eid of
        Some s \<Rightarrow> if s = [] then (''edge_'' @ string_of_int (edgeIdCounter g),
                                  g\<lparr>edgeIdCounter := edgeIdCounter g + 1\<rparr>)
                  else (s, g)
      | None \<Rightarrow> (''edge_'' @ string_of_int (edgeIdCounter g),
                  g\<lparr>edgeIdCounter := edgeIdCounter g + 1\<rparr>))"

text \<open>
  \<open>addNode\<close>: the id is generated, and the counter advanced, before the duplicate check;
  the function returns the outcome together with the state the call leaves behind
  (a \<open>throw\<close> does not undo the assignments made before it).
\<close>

definition addNode ::
  "graph \<Rightarrow> string option \<Rightarrow> string \<Rightarrow> real \<Rightarrow> real \<Rightarrow> (string \<times> string) list
     \<Rightarrow> (error + node) \<times> graph" where
  "addNode g nid lbl x y dat =
     (let (i, g1) = next_node_id g nid
      in if Map_has (nodes g1) i then (Inl DuplicateIdError, g1)
         else let n = \<lparr>node_id = i, node_label = (if lbl = [] then i else lbl),
                        node_x = x, node_y = y, node_data = dat\<rparr>
              in (Inr n, g1\<lparr>nodes := Map_set (nodes g1) i n\<rparr>))"

definition removeNode :: "graph \<Rightarrow> string \<Rightarrow> bool \<times> graph" where
  "removeNode g nodeId =
     (if \<not> Map_has (nodes g) nodeId then (False, g)
      else let edgesToRemove =
                 map fst (filter (\<lambda>(k, e). source e = nodeId \<or> target e = nodeId) (edges g));
               es = foldl Map_delete (edges g) edgesToRemove
           in (True, g\<lparr>nodes := Map_delete (nodes g) nodeId, edges := es\<rparr>))"

text \<open>The duplicate test of \<open>addEdge\<close>, one loop for each kind of graph.\<close>

definition edge_exists :: "graph \<Rightarrow> string \<Rightarrow> string \<Rightarrow> bool" where
  "edge_exists g sourceId targetId =
     (if \<not> isDirected g
      then list_ex (\<lambda>e. (source e = sourceId \<and> target e = targetId) \<or>
                         (source e = targetId \<and> target e = sourceId)) (Map_values (edges g))
      else list_ex (\<lambda>e. source e = sourceId \<and> target e = targetId) (Map_values (edges g)))"

definition addEdge ::
  "graph \<Rightarrow> string \<Rightarrow> string \<Rightarrow> int \<Rightarrow> string \<Rightarrow> string option \<Rightarrow> (error + edge) \<times> graph" where
  "addEdge g sourceId targetId w lbl eid =
     (if \<not> Map_has (nodes g) sourceId \<or> \<not> Map_has (nodes g) targetId
      then (Inl MissingEndpointError, g)
      else
        let (i, g1) = next_edge_id g eid
        in if edge_exists g1 sourceId targetId then (Inl DuplicateEdgeError, g1)
           else let e = \<lparr>edge_id = i, source = sourceId, target = targetId,
                          weight = (if isWeighted g1 then w else 1),
                          edge_label = (if lbl = [] then (if isWeighted g1 then string_of_int w else [])
                                        else lbl),
                          directed = isDirected g1\<rparr>
                in (Inr e, g1\<lparr>edges := Map_set (edges g1) i e\<rparr>))"

definition removeEdge :: "graph \<Rightarrow> string \<Rightarrow> bool \<times> graph" where
  "removeEdge g edgeId = (Map_has (edges g) edgeId, g\<lparr>edges := Map_delete (edges g) edgeId\<rparr>)"

text \<open>\<open>getNeighbors\<close> collects into a \<open>Set\<close> and returns its members in insertion order.\<close>

definition getNeighbors :: "graph \<Rightarrow> string \<Rightarrow> string list" where
  "getNeighbors g nodeId =
     foldl (\<lambda>neighbors e.
              if source e = nodeId then Set_add neighbors (target e)
              else if \<not> isDirected g \<and> target e = nodeId then Set_add neighbors (source e)
              else neighbors)
           [] (Map_values (edges g))"

definition edge_joins :: "graph \<Rightarrow> string \<Rightarrow> string \<Rightarrow> edge \<Rightarrow> bool" where
  "edge_joins g sourceId targetId e =
     ((source e = sourceId \<and> target e = targetId) \<or>
      (\<not> isDirected g \<and> source e = targetId \<and> target e = sourceId))"

definition getEdgeWeight :: "graph \<Rightarrow> string \<Rightarrow> string \<Rightarrow> jsnum" where
  "getEdgeWeight g sourceId targetId =
     (case find (edge_joins g sourceId targetId) (Map_values (edges g)) of
        Some e \<Rightarrow> Num (weight e)
      | None \<Rightarrow> Infinity)"

definition getNode :: "graph \<Rightarrow> string \<Rightarrow> node option" where
  "getNode g nodeId = Map_get (nodes g) nodeId"

definition getEdges :: "graph \<Rightarrow> edge list" where
  "getEdges g = Map_values (edges g)"

text \<open>
  \<open>updateNode\<close> and \<open>updateEdge\<close> are \<open>Object.assign(record, properties)\<close>: each property that
  is present overwrites the field, with no check; the entry keeps its key in the map.
\<close>

record node_props =
  p_node_id :: "string option"
  p_node_label :: "string option"
  p_node_x :: "real option"
  p_node_y :: "real option"
  p_node_data :: "(string \<times> string) list option"

record edge_props =
  p_edge_id :: "string option"
  p_source :: "string option"
  p_target :: "string option"
  p_weight :: "int option"
  p_edge_label :: "string option"
  p_directed :: "bool option"

definition assign_field :: "'a \<Rightarrow> 'a option \<Rightarrow> 'a" where
  "assign_field old new = (case new of None \<Rightarrow> old | Some v \<Rightarrow> v)"

definition assign_node :: "node \<Rightarrow> node_props \<Rightarrow> node" where
  "assign_node n p =
     \<lparr>node_id = assign_field (node_id n) (p_node_id p),
      node_label = assign_field (node_label n) (p_node_label p),
      node_x = assign_field (node_x n) (p_node_x p),
      node_y = assign_field (node_y n) (p_node_y p),
      node_data = assign_field (node_data n) (p_node_data p)\<rparr>"

definition assign_edge :: "edge \<Rightarrow> edge_props \<Rightarrow> edge" where
  "assign_edge e p =
     \<lparr>edge_id = assign_field (edge_id e) (p_edge_id p),
      source = assign_field (source e) (p_source p),
      target = assign_field (target e) (p_target p),
      weight = assign_field (weight e) (p_weight p),
      edge_label = assign_field (edge_label e) (p_edge_label p),
      directed = assign_field (directed e) (p_directed p)\<rparr>"

definition updateNodePosition :: "graph \<Rightarrow> string \<Rightarrow> real \<Rightarrow> real \<Rightarrow> graph" where
  "updateNodePosition g nodeId x y =
     (case Map_get (nodes g) nodeId of
        Some n \<Rightarrow> g\<lparr>nodes := Map_set (nodes g) nodeId (n\<lparr>node_x := x, node_y := y\<rparr>)\<rparr>
      | None \<Rightarrow> g)"

definition updateNode :: "graph \<Rightarrow> string \<Rightarrow> node_props \<Rightarrow> graph" where
  "updateNode g nodeId properties =
     (case Map_get (nodes g) nodeId of
        Some n \<Rightarrow> g\<lparr>nodes := Map_set (nodes g) nodeId (assign_node n properties)\<rparr>
      | None \<Rightarrow> g)"

definition updateEdge :: "graph \<Rightarrow> string \<Rightarrow> edge_props \<Rightarrow> graph" where
  "updateEdge g edgeId properties =
     (case Map_get (edges g) edgeId of
        Some e \<Rightarrow> g\<lparr>edges := Map_set (edges g) edgeId (assign_edge e properties)\<rparr>
      | None \<Rightarrow> g)"

definition clear :: "graph \<Rightarrow> graph" where
  "clear g = g\<lparr>nodes := [], edges := [], nodeIdCounter := 1, edgeIdCounter := 1\<rparr>"

text \<open>The snapshot of \<open>toJSON\<close>, which \<open>fromJSON\<close> reads as an object.\<close>

record snapshot =
  s_nodes :: "node list"
  s_edges :: "edge list"
  s_isDirected :: bool
  s_isWeighted :: bool
  s_nodeIdCounter :: int
  s_edgeIdCounter :: int

definition toJSON :: "graph \<Rightarrow> snapshot" where
  "toJSON g = \<lparr>s_nodes = Map_values (nodes g), s_edges = Map_values (edges g),
               s_isDirected = isDirected g, s_isWeighted = isWeighted g,
               s_nodeIdCounter = nodeIdCounter g, s_edgeIdCounter = edgeIdCounter g\<rparr>"

text \<open>\<open>c || 1\<close> on a number: zero is falsy.\<close>

definition or_one :: "int \<Rightarrow> int" where
  "or_one c = (if c = 0 then 1 else c)"

definition fromJSON :: "graph \<Rightarrow> snapshot \<Rightarrow> graph" where
  "fromJSON g d =
     (let g1 = clear g;
          g2 = g1\<lparr>isDirected := s_isDirected d, isWeighted := s_isWeighted d,
                  nodeIdCounter := or_one (s_nodeIdCounter d),
                  edgeIdCounter := or_one (s_edgeIdCounter d)\<rparr>;
          g3 = g2\<lparr>nodes := foldl (\<lambda>m n. Map_set m (node_id n) n) (nodes g2) (s_nodes d)\<rparr>
      in g3\<lparr>edges := foldl (\<lambda>m e. Map_set m (edge_id e) e) (edges g3) (s_edges d)\<rparr>)"

text \<open>The mutating operations as data, to speak about sequences of calls.\<close>

datatype mutation =
    AddNode "string option" string real real "(string \<times> string) list"
  | RemoveNode string
  | AddEdge string string int string "string option"
  | RemoveEdge string
  | UpdateNodePosition string real real
  | UpdateNode string node_props
  | UpdateEdge string edge_props
  | SetGraphType bool bool
  | Clear
  | FromJSON snapshot

fun apply_mutation :: "graph \<Rightarrow> mutation \<Rightarrow> graph" where
  "apply_mutation g (AddNode nid lbl x y dat) = snd (addNode g nid lbl x y dat)"
| "apply_mutation g (RemoveNode nodeId) = snd (removeNode g nodeId)"
| "apply_mutation g (AddEdge s t w lbl eid) = snd (addEdge g s t w lbl eid)"
| "apply_mutation g (RemoveEdge edgeId) = snd (removeEdge g edgeId)"
| "apply_mutation g (UpdateNodePosition nodeId x y) = updateNodePosition g nodeId x y"
| "apply_mutation g (UpdateNode nodeId p) = updateNode g nodeId p"
| "apply_mutation g (UpdateEdge edgeId p) = updateEdge g edgeId p"
| "apply_mutation g (SetGraphType d w) = setGraphType g d w"
| "apply_mutation g Clear = clear g"
| "apply_mutation g (FromJSON d) = fromJSON g d"

definition apply_mutations :: "graph \<Rightarrow> mutation list \<Rightarrow> graph" where
  "apply_mutations g ms = foldl apply_mutation g ms"

section \<open>Properties of graph states and of sequences of calls\<close>

text \<open>
  Invariant 1 of the data model: every edge's \<open>source\<close> and \<open>target\<close> are keys of the node map.
\<close>

definition edges_reference_nodes :: "graph \<Rightarrow> bool" where
  "edges_reference_nodes g =
     (\<forall>e \<in> set (Map_values (edges g)). Map_has (nodes g) (source e) \<and> Map_has (nodes g) (target e))"

fun keeps_endpoints :: "mutation \<Rightarrow> bool" where
  "keeps_endpoints (UpdateEdge edgeId p) = (p_source p = None \<and> p_target p = None)"
| "keeps_endpoints (FromJSON d) =
     (\<forall>e \<in> set (s_edges d). source e \<in> node_id ` set (s_nodes d) \<and> target e \<in> node_id ` set (s_nodes d))"
| "keeps_endpoints _ = True"

definition unit_weights :: "graph \<Rightarrow> bool" where
  "unit_weights g = (\<forall>e \<in> set (Map_values (edges g)). weight e = 1)"

fun keeps_unit_weights :: "mutation \<Rightarrow> bool" where
  "keeps_unit_weights (UpdateEdge edgeId p) = (p_weight p = None \<or> p_weight p = Some 1)"
| "keeps_unit_weights (SetGraphType d w) = (\<not> w)"
| "keeps_unit_weights (FromJSON d) = (\<not> s_isWeighted d \<and> (\<forall>e \<in> set (s_edges d). weight e = 1))"
| "keeps_unit_weights _ = True"

definition keys_are_ids :: "graph \<Rightarrow> bool" where
  "keys_are_ids g =
     (distinct (Map_keys (nodes g)) \<and> distinct (Map_keys (edges g)) \<and>
      (\<forall>kn \<in> set (nodes g). node_id (snd kn) = fst kn) \<and>
      (\<forall>ke \<in> set (edges g). edge_id (snd ke) = fst ke))"

definition no_props :: node_props where
  "no_props = \<lparr>p_node_id = None, p_node_label = None, p_node_x = None, p_node_y = None,
               p_node_data = None\<rparr>"

definition no_edge_props :: edge_props where
  "no_edge_props = \<lparr>p_edge_id = None, p_source = None, p_target = None, p_weight = None,
                    p_edge_label = None, p_directed = None\<rparr>"

definition graph_AB :: graph where
  "graph_AB = apply_mutations Graph_new
     [AddNode (Some ''A'') [] 0 0 [], AddNode (Some ''B'') [] 0 0 [], AddEdge ''A'' ''B'' 7 [] None]"

definition graph_renamed :: graph where
  "graph_renamed = apply_mutations Graph_new
     [AddNode (Some ''A'') [] 0 0 [], AddNode (Some ''B'') [] 0 0 [],
      UpdateNode ''A'' (no_props\<lparr>p_node_id := Some ''B''\<rparr>)]"

section \<open>The disjoint-set structure (\<open>UnionFind\<close>)\<close>

text \<open>
  The elements are the keys and values of the \<open>parent\<close> map. \<open>Map.get\<close> on an absent key is
  \<open>undefined\<close>, which is a value like any other for \<open>!==\<close>, for \<open>===\<close> and as a key.
\<close>

datatype 'a jsval = Undefined | Val 'a

record 'a UnionFind =
  parent :: "('a jsval, 'a jsval) Map"
  rank :: "('a jsval, jsnum) Map"

definition UnionFind_new :: "'a list \<Rightarrow> 'a UnionFind" where
  "UnionFind_new elements =
     foldl (\<lambda>u element. u\<lparr>parent := Map_set (parent u) (Val element) (Val element),
                            rank := Map_set (rank u) (Val element) (Num 0)\<rparr>)
           \<lparr>parent = [], rank = []\<rparr> elements"

text \<open>\<open>this.parent.get(element)\<close>.\<close>

definition parent_get :: "'a UnionFind \<Rightarrow> 'a jsval \<Rightarrow> 'a jsval" where
  "parent_get u element = (case Map_get (parent u) element of None \<Rightarrow> Undefined | Some p \<Rightarrow> p)"

text \<open>
  \<open>find\<close> is recursive along the parent chain and writes the representative back on the
  way out. The recursion need not end on an arbitrary map, so it is a partial function:
  \<open>None\<close> is "does not return".
\<close>

partial_function (option) UnionFind_find ::
  "'a UnionFind \<Rightarrow> 'a jsval \<Rightarrow> ('a jsval \<times> 'a UnionFind) option" where
  "UnionFind_find u element =
     (if parent_get u element \<noteq> element
      then Option.bind (UnionFind_find u (parent_get u element))
             (\<lambda>(r, u1). let u2 = u1\<lparr>parent := Map_set (parent u1) element r\<rparr>
                         in Some (parent_get u2 element, u2))
      else Some (parent_get u element, u))"

declare UnionFind_find.simps [code]

text \<open>
  \<open>rank1 < rank2\<close> on the results of \<open>rank.get\<close>: \<open>undefined\<close> converts to \<open>NaN\<close>, so every
  comparison with it is false; \<open>rank1 + 1\<close> on \<open>undefined\<close> is \<open>NaN\<close>.
\<close>

fun rank_lt :: "jsnum option \<Rightarrow> jsnum option \<Rightarrow> bool" where
  "rank_lt (Some a) (Some b) = js_lt a b"
| "rank_lt _ _ = False"

fun rank_succ :: "jsnum option \<Rightarrow> jsnum" where
  "rank_succ (Some a) = js_add a (Num 1)"
| "rank_succ None = NaN"

definition UnionFind_union :: "'a UnionFind \<Rightarrow> 'a jsval \<Rightarrow> 'a jsval \<Rightarrow> 'a UnionFind option" where
  "UnionFind_union u element1 element2 =
     Option.bind (UnionFind_find u element1) (\<lambda>(root1, u1).
     Option.bind (UnionFind_find u1 element2) (\<lambda>(root2, u2).
       if root1 = root2 then Some u2
       else let rank1 = Map_get (rank u2) root1; rank2 = Map_get (rank u2) root2
            in if rank_lt rank1 rank2
               then Some (u2\<lparr>parent := Map_set (parent u2) root1 root2\<rparr>)
               else if rank_lt rank2 rank1
               then Some (u2\<lparr>parent := Map_set (parent u2) root2 root1\<rparr>)
               else Some (u2\<lparr>parent := Map_set (parent u2) root2 root1,
                              rank := Map_set (rank u2) root1 (rank_succ rank1)\<rparr>)))"

definition UnionFind_connected ::
  "'a UnionFind \<Rightarrow> 'a jsval \<Rightarrow> 'a jsval \<Rightarrow> (bool \<times> 'a UnionFind) option" where
  "UnionFind_connected u element1 element2 =
     Option.bind (UnionFind_find u element1) (\<lambda>(root1, u1).
     Option.bind (UnionFind_find u1 element2) (\<lambda>(root2, u2).
       Some (root1 = root2, u2)))"

text \<open>Sequences of calls on one structure; the results of \<open>find\<close> and \<open>connected\<close> are dropped.\<close>

datatype 'a uf_op = Find "'a jsval" | Union "'a jsval" "'a jsval" | Connected "'a jsval" "'a jsval"

fun apply_uf_op :: "'a UnionFind \<Rightarrow> 'a uf_op \<Rightarrow> 'a UnionFind option" where
  "apply_uf_op u (Find x) = map_option snd (UnionFind_find u x)"
| "apply_uf_op u (Union x y) = UnionFind_union u x y"
| "apply_uf_op u (Connected x y) = map_option snd (UnionFind_connected u x y)"

fun apply_uf_ops :: "'a UnionFind \<Rightarrow> 'a uf_op list \<Rightarrow> 'a UnionFind option" where
  "apply_uf_ops u [] = Some u"
| "apply_uf_ops u (c # cs) = Option.bind (apply_uf_op u c) (\<lambda>u'. apply_uf_ops u' cs)"

text \<open>The value a call of \<open>connected\<close> returns, if it returns.\<close>

definition connected_value :: "'a UnionFind \<Rightarrow> 'a jsval \<Rightarrow> 'a jsval \<Rightarrow> bool option" where
  "connected_value u a b = map_option fst (UnionFind_connected u a b)"

definition find_value :: "'a UnionFind \<Rightarrow> 'a jsval \<Rightarrow> 'a jsval option" where
  "find_value u a = map_option fst (UnionFind_find u a)"

text \<open>
  The parent chains, as a relation: \<open>root_of P x r\<close> when following \<open>P\<close> from \<open>x\<close> ends in the
  fixed point \<open>r\<close>.
\<close>

inductive root_of :: "('a \<Rightarrow> 'a) \<Rightarrow> 'a \<Rightarrow> 'a \<Rightarrow> bool" for P :: "'a \<Rightarrow> 'a" where
  root: "P x = x \<Longrightarrow> root_of P x x"
| step: "P x \<noteq> x \<Longrightarrow> root_of P (P x) r \<Longrightarrow> root_of P x r"

definition chains_end :: "'a UnionFind \<Rightarrow> bool" where
  "chains_end u = (\<forall>x. \<exists>r. root_of (parent_get u) x r)"

text \<open>Two values are in one class when their chains end in the same place.\<close>

definition same_class :: "'a UnionFind \<Rightarrow> 'a jsval \<Rightarrow> 'a jsval \<Rightarrow> bool" where
  "same_class u x y = (\<exists>r. root_of (parent_get u) x r \<and> root_of (parent_get u) y r)"

text \<open>The arguments of a call, to speak of sequences that only mention given elements.\<close>

fun uf_op_args :: "'a uf_op \<Rightarrow> 'a jsval list" where
  "uf_op_args (Find x) = [x]"
| "uf_op_args (Union x y) = [x, y]"
| "uf_op_args (Connected x y) = [x, y]"

definition members_only :: "'a list \<Rightarrow> 'a uf_op list \<Rightarrow> bool" where
  "members_only elements cs =
     list_all (\<lambda>c. list_all (\<lambda>x. x \<in> set (map Val elements)) (uf_op_args c)) cs"

text \<open>
  As long as only elements of the set are passed in, \<open>undefined\<close> stays the end of its own
  chain and of the chain of every value outside the set, apart from every element.
\<close>

definition undefined_apart :: "'a list \<Rightarrow> 'a UnionFind \<Rightarrow> bool" where
  "undefined_apart es u =
     (chains_end u \<and> (\<forall>e \<in> set es. \<not> same_class u (Val e) Undefined) \<and>
      (\<forall>x. x \<notin> Val ` set es \<longrightarrow> root_of (parent_get u) x Undefined))"

definition uf_12_3 :: "nat UnionFind" where
  "uf_12_3 = \<lparr>parent = [(Val 1, Val 1), (Val 2, Val 1), (Val 3, Val 3)],
              rank = [(Val 1, Num 1), (Val 2, Num 0), (Val 3, Num 0)]\<rparr>"

section \<open>The algorithms (\<open>GraphAlgorithms\<close>): traversal\<close>

subsection \<open>The neighbour ordering\<close>

text \<open>
  \<open>getNum\<close>: \<open>id.match(/(\d+)/)\<close> finds the first run of ASCII digits, \<open>parseInt\<close> reads it
  (exactly, for runs below \<open>2^53\<close>); without digits the number is 0.
\<close>

definition is_digit :: "char \<Rightarrow> bool" where
  "is_digit c = (48 \<le> (of_char c :: nat) \<and> (of_char c :: nat) \<le> 57)"

definition nat_of_digits :: "string \<Rightarrow> nat" where
  "nat_of_digits ds = foldl (\<lambda>n c. 10 * n + ((of_char c :: nat) - 48)) 0 ds"

definition getNum :: "string \<Rightarrow> int" where
  "getNum i = int (nat_of_digits (takeWhile is_digit (dropWhile (\<lambda>c. \<not> is_digit c) i)))"

text \<open>
  The comparison function of both traversals. \<open>localeCompare\<close> belongs to the host (its
  order depends on the locale's collation), so it is a parameter \<open>lc\<close> of everything that
  sorts.
\<close>

definition compare_ids :: "(string \<Rightarrow> string \<Rightarrow> int) \<Rightarrow> string \<Rightarrow> string \<Rightarrow> int" where
  "compare_ids lc a b = (if getNum a \<noteq> getNum b then getNum a - getNum b else lc a b)"

text \<open>
  \<open>Array.prototype.sort\<close> with a comparison function, as a stable insertion sort: an
  element is placed before the first one it compares smaller than. (For a comparison
  function that is not a consistent order the language leaves the result open; it is a
  permutation in any case, as here.)
\<close>

fun sort_insert :: "('a \<Rightarrow> 'a \<Rightarrow> int) \<Rightarrow> 'a \<Rightarrow> 'a list \<Rightarrow> 'a list" where
  "sort_insert cmp x [] = [x]"
| "sort_insert cmp x (y # ys) = (if cmp x y < 0 then x # y # ys else y # sort_insert cmp x ys)"

definition js_sort :: "('a \<Rightarrow> 'a \<Rightarrow> int) \<Rightarrow> 'a list \<Rightarrow> 'a list" where
  "js_sort cmp xs = foldl (\<lambda>sorted x. sort_insert cmp x sorted) [] xs"

definition sorted_neighbors :: "(string \<Rightarrow> string \<Rightarrow> int) \<Rightarrow> graph \<Rightarrow> string \<Rightarrow> string list" where
  "sorted_neighbors lc g nodeId = js_sort (compare_ids lc) (getNeighbors g nodeId)"

text \<open>Every id a traversal can meet as a neighbour: the endpoints of the edges.\<close>

definition endpoints :: "graph \<Rightarrow> string set" where
  "endpoints g = source ` set (Map_values (edges g)) \<union> target ` set (Map_values (edges g))"

text \<open>\<open>targetNodeId && ...\<close>: \<open>null\<close> and the empty string count as no target.\<close>

fun truthy :: "string option \<Rightarrow> bool" where
  "truthy None = False"
| "truthy (Some s) = (s \<noteq> [])"

subsection \<open>\<open>reconstructPath\<close>\<close>

text \<open>
  The loop variable is a node id, \<open>null\<close> (the parent of the start), or \<open>undefined\<close> (what
  \<open>parent.get\<close> gives for a node without entry). The loop ends on \<open>null\<close> only: on
  \<open>undefined\<close> it goes round for ever (\<open>parent.get(undefined)\<close> is \<open>undefined\<close> again, no key
  of the map being \<open>undefined\<close>), so the walk is a partial function and \<open>None\<close> is
  "does not return".
\<close>

datatype cursor = Node string | Null | Undef

fun cursor_of :: "string option option \<Rightarrow> cursor" where
  "cursor_of None = Undef"
| "cursor_of (Some None) = Null"
| "cursor_of (Some (Some p)) = Node p"

partial_function (option) reconstruct_walk ::
  "(string, string option) Map \<Rightarrow> cursor \<Rightarrow> string list \<Rightarrow> string list option" where
  "reconstruct_walk parent_map current path =
     (case current of
        Null \<Rightarrow> Some path
      | Undef \<Rightarrow> None
      | Node c \<Rightarrow> reconstruct_walk parent_map (cursor_of (Map_get parent_map c)) (c # path))"

declare reconstruct_walk.simps [code]

definition reconstructPath ::
  "(string, string option) Map \<Rightarrow> string \<Rightarrow> string \<Rightarrow> string list option" where
  "reconstructPath parent_map start end_node =
     map_option (\<lambda>path. case path of [] \<Rightarrow> [] | p # _ \<Rightarrow> if p = start then path else [])
       (reconstruct_walk parent_map (Node end_node) [])"

subsection \<open>Breadth-first search\<close>

record bfs_state =
  bfs_visited :: "string list"
  bfs_queue :: "string list"
  bfs_visitOrder :: "string list"
  bfs_parent :: "(string, string option) Map"
  bfs_distance :: "(string, jsnum) Map"
  bfs_found :: bool

text \<open>\<open>distance.get(currentNode) + 1\<close>; \<open>undefined + 1\<close> is \<open>NaN\<close>.\<close>

definition next_distance :: "(string, jsnum) Map \<Rightarrow> string \<Rightarrow> jsnum" where
  "next_distance d currentNode =
     (case Map_get d currentNode of Some n \<Rightarrow> js_add n (Num 1) | None \<Rightarrow> NaN)"

text \<open>The body of \<open>for (const neighbor of neighbors)\<close>.\<close>

definition bfs_visit :: "string \<Rightarrow> bfs_state \<Rightarrow> string \<Rightarrow> bfs_state" where
  "bfs_visit currentNode st neighbor =
     (if neighbor \<notin> set (bfs_visited st)
      then st\<lparr>bfs_visited := Set_add (bfs_visited st) neighbor,
              bfs_parent := Map_set (bfs_parent st) neighbor (Some currentNode),
              bfs_distance := Map_set (bfs_distance st) neighbor
                                (next_distance (bfs_distance st) currentNode),
              bfs_queue := bfs_queue st @ [neighbor]\<rparr>
      else st)"

lemma bfs_visit_fold:
  "set (bfs_visited (foldl (bfs_visit c) st ns)) = set (bfs_visited st) \<union> set ns \<and>
   (set ns \<subseteq> set (bfs_visited st) \<longrightarrow> foldl (bfs_visit c) st ns = st)"
  by (induction ns arbitrary: st) (auto simp: bfs_visit_def Set_add_def)

lemma set_sort_insert: "set (sort_insert cmp x ys) = insert x (set ys)"
  by (induction ys) auto

lemma set_js_sort_foldl:
  "set (foldl (\<lambda>sorted x. sort_insert cmp x sorted) acc xs) = set acc \<union> set xs"
  by (induction xs arbitrary: acc) (auto simp: set_sort_insert)

lemma set_js_sort: "set (js_sort cmp xs) = set xs"
  by (simp add: js_sort_def set_js_sort_foldl)

lemma getNeighbors_foldl_endpoints:
  "set (foldl (\<lambda>neighbors e.
              if source e = n then Set_add neighbors (target e)
              else if \<not> d \<and> target e = n then Set_add neighbors (source e)
              else neighbors) acc es) \<subseteq> set acc \<union> source ` set es \<union> target ` set es"
proof (induction es arbitrary: acc)
  case Nil
  then show ?case by simp
next
  case (Cons e es)
  let ?acc' = "if source e = n then Set_add acc (target e)
               else if \<not> d \<and> target e = n then Set_add acc (source e) else acc"
  have "set ?acc' \<subseteq> set acc \<union> {source e, target e}"
    by (auto simp: Set_add_def)
  with Cons.IH[of ?acc'] show ?case by auto
qed

lemma getNeighbors_endpoints: "set (getNeighbors g n) \<subseteq> endpoints g"
  using getNeighbors_foldl_endpoints[of n "isDirected g" "[]" "Map_values (edges g)"]
  by (auto simp: getNeighbors_def endpoints_def)

lemma sorted_neighbors_endpoints: "set (sorted_neighbors lc g n) \<subseteq> endpoints g"
  using getNeighbors_endpoints by (simp add: sorted_neighbors_def set_js_sort)

lemma finite_endpoints: "finite (endpoints g)"
  by (simp add: endpoints_def)

text \<open>
  The \<open>while (queue.length > 0)\<close> loop. It ends: a round either marks a new endpoint of
  the graph as visited, or leaves the visited set alone and shortens the queue.
\<close>

function bfs_loop ::
  "(string \<Rightarrow> string \<Rightarrow> int) \<Rightarrow> graph \<Rightarrow> string option \<Rightarrow> bfs_state \<Rightarrow> bfs_state" where
  "bfs_loop lc g targetNodeId st =
     (case bfs_queue st of
        [] \<Rightarrow> st
      | currentNode # rest \<Rightarrow>
          let st1 = st\<lparr>bfs_queue := rest, bfs_visitOrder := bfs_visitOrder st @ [currentNode]\<rparr>
          in if truthy targetNodeId \<and> Some currentNode = targetNodeId
             then st1\<lparr>bfs_found := True\<rparr>
             else bfs_loop lc g targetNodeId
                    (foldl (bfs_visit currentNode) st1 (sorted_neighbors lc g currentNode)))"
  by pat_completeness auto
termination
proof (relation "inv_image (less_than <*lex*> less_than)
         (\<lambda>(lc, g, t, st). (card (endpoints g - set (bfs_visited st)), length (bfs_queue st)))",
       goal_cases)
  case 1
  then show ?case by (intro wf_inv_image wf_lex_prod wf_less_than)
next
  case (2 lc g targetNodeId st currentNode rest st1)
  let ?ns = "sorted_neighbors lc g currentNode"
  let ?st' = "foldl (bfs_visit currentNode) st1 ?ns"
  have v1: "bfs_visited st1 = bfs_visited st" and q1: "bfs_queue st1 = rest"
    using 2 by simp_all
  have vis: "set (bfs_visited ?st') = set (bfs_visited st) \<union> set ?ns"
    using bfs_visit_fold[of currentNode st1 ?ns] v1 by simp
  show ?case
  proof (cases "set ?ns \<subseteq> set (bfs_visited st)")
    case True
    then have "?st' = st1" using bfs_visit_fold[of currentNode st1 ?ns] v1 by simp
    then show ?thesis using 2 v1 q1 by simp
  next
    case False
    then obtain n where n: "n \<in> set ?ns" "n \<notin> set (bfs_visited st)" by auto
    with sorted_neighbors_endpoints[of lc g currentNode]
    have "n \<in> endpoints g - set (bfs_visited st)" by auto
    moreover have "n \<notin> endpoints g - set (bfs_visited ?st')" using vis n by simp
    moreover have "endpoints g - set (bfs_visited ?st') \<subseteq> endpoints g - set (bfs_visited st)"
      using vis by auto
    ultimately have "endpoints g - set (bfs_visited ?st') \<subset> endpoints g - set (bfs_visited st)"
      by blast
    then have "card (endpoints g - set (bfs_visited ?st')) < card (endpoints g - set (bfs_visited st))"
      by (intro psubset_card_mono) (simp_all add: finite_endpoints)
    then show ?thesis by simp
  qed
qed

declare bfs_loop.simps [simp del]

record bfs_statistics =
  bs_nodesVisited :: nat
  bs_totalNodes :: nat
  bs_pathLength :: nat

record bfs_result =
  b_algorithm :: string
  b_startNode :: string
  b_targetNode :: "string option"
  b_visitOrder :: "string list"
  b_path :: "string list"
  b_found :: bool
  b_distance :: "jsnum option"
  b_distances :: "(string, jsnum) Map"
  b_statistics :: bfs_statistics

text \<open>
  \<open>bfs\<close> has no check of its arguments. The outer \<open>option\<close> is \<open>None\<close> when the call does not
  return (only \<open>reconstructPath\<close> can loop); the sum is there to compare with \<open>dfs\<close>.
  \<open>distances\<close> is \<open>Object.fromEntries(distance)\<close>: an object with the value of the map at each
  key, kept here as the entries of the map.
\<close>

definition bfs ::
  "(string \<Rightarrow> string \<Rightarrow> int) \<Rightarrow> graph \<Rightarrow> string \<Rightarrow> string option \<Rightarrow> (error + bfs_result) option" where
  "bfs lc g startNodeId targetNodeId =
     (let st = bfs_loop lc g targetNodeId
                 \<lparr>bfs_visited = [startNodeId], bfs_queue = [startNodeId], bfs_visitOrder = [],
                  bfs_parent = [(startNodeId, None)], bfs_distance = [(startNodeId, Num 0)],
                  bfs_found = False\<rparr>;
          finish = (\<lambda>finalPath shortestDistance.
             Some (Inr \<lparr>b_algorithm = ''BFS'', b_startNode = startNodeId,
                        b_targetNode = targetNodeId, b_visitOrder = bfs_visitOrder st,
                        b_path = finalPath,
                        b_found = (if truthy targetNodeId then bfs_found st else True),
                        b_distance = shortestDistance, b_distances = bfs_distance st,
                        b_statistics = \<lparr>bs_nodesVisited = length (bfs_visited st),
                                         bs_totalNodes = length (nodes g),
                                         bs_pathLength = length finalPath\<rparr>\<rparr>))
      in case targetNodeId of
           Some t \<Rightarrow>
             if t \<noteq> [] \<and> bfs_found st
             then Option.bind (reconstructPath (bfs_parent st) startNodeId t)
                    (\<lambda>finalPath. finish finalPath (Map_get (bfs_distance st) t))
             else if t = [] then finish (bfs_visitOrder st) (Some (Num (- 1)))
             else finish [] (Some (Num (- 1)))
         | None \<Rightarrow> finish (bfs_visitOrder st) (Some (Num (- 1))))"

subsection \<open>Depth-first search\<close>

text \<open>The stack is a list with its top at the head.\<close>

record dfs_state =
  dfs_visited :: "string list"
  dfs_stack :: "string list"
  dfs_visitOrder :: "string list"
  dfs_parent :: "(string, string option) Map"
  dfs_found :: bool

text \<open>The body of the loop that pushes the neighbours, last to first.\<close>

definition dfs_push :: "string \<Rightarrow> dfs_state \<Rightarrow> string \<Rightarrow> dfs_state" where
  "dfs_push currentNode st neighbor =
     (if neighbor \<notin> set (dfs_visited st)
      then st\<lparr>dfs_stack := neighbor # dfs_stack st,
              dfs_parent := (if \<not> Map_has (dfs_parent st) neighbor
                             then Map_set (dfs_parent st) neighbor (Some currentNode)
                             else dfs_parent st)\<rparr>
      else st)"

lemma dfs_push_fold:
  "dfs_visited (foldl (dfs_push c) st ns) = dfs_visited st \<and>
   set (dfs_stack (foldl (dfs_push c) st ns)) \<subseteq> set (dfs_stack st) \<union> set ns"
proof (induction ns arbitrary: st)
  case Nil
  then show ?case by simp
next
  case (Cons n ns)
  have "dfs_visited (dfs_push c st n) = dfs_visited st"
    "set (dfs_stack (dfs_push c st n)) \<subseteq> set (dfs_stack st) \<union> {n}"
    by (auto simp: dfs_push_def)
  with Cons.IH[of "dfs_push c st n"] show ?case by auto
qed

text \<open>
  The \<open>while (stack.length > 0)\<close> loop. It ends: a round either pops a visited node, or
  marks as visited a node that was on the stack.
\<close>

function dfs_loop ::
  "(string \<Rightarrow> string \<Rightarrow> int) \<Rightarrow> graph \<Rightarrow> string option \<Rightarrow> dfs_state \<Rightarrow> dfs_state" where
  "dfs_loop lc g targetNodeId st =
     (case dfs_stack st of
        [] \<Rightarrow> st
      | currentNode # rest \<Rightarrow>
          if currentNode \<in> set (dfs_visited st)
          then dfs_loop lc g targetNodeId (st\<lparr>dfs_stack := rest\<rparr>)
          else
            let st1 = st\<lparr>dfs_stack := rest,
                         dfs_visited := Set_add (dfs_visited st) currentNode,
                         dfs_visitOrder := dfs_visitOrder st @ [currentNode]\<rparr>
            in if truthy targetNodeId \<and> Some currentNode = targetNodeId
               then st1\<lparr>dfs_found := True\<rparr>
               else dfs_loop lc g targetNodeId
                      (foldl (dfs_push currentNode) st1 (rev (sorted_neighbors lc g currentNode))))"
  by pat_completeness auto
termination
proof (relation "inv_image (less_than <*lex*> less_than)
         (\<lambda>(lc, g, t, st). (card ((endpoints g \<union> set (dfs_stack st)) - set (dfs_visited st)),
                             length (dfs_stack st)))",
       goal_cases)
  case 1
  then show ?case by (intro wf_inv_image wf_lex_prod wf_less_than)
next
  case (2 lc g targetNodeId st currentNode rest)
  have "(endpoints g \<union> set rest) - set (dfs_visited st)
          \<subseteq> (endpoints g \<union> set (dfs_stack st)) - set (dfs_visited st)"
    using 2 by auto
  then have "card ((endpoints g \<union> set rest) - set (dfs_visited st))
          \<le> card ((endpoints g \<union> set (dfs_stack st)) - set (dfs_visited st))"
    by (intro card_mono) (simp_all add: finite_endpoints)
  then show ?case using 2 by auto
next
  case (3 lc g targetNodeId st currentNode rest st1)
  let ?ns = "rev (sorted_neighbors lc g currentNode)"
  let ?st' = "foldl (dfs_push currentNode) st1 ?ns"
  have v: "set (dfs_visited ?st') = insert currentNode (set (dfs_visited st))"
    using dfs_push_fold[of currentNode st1 ?ns] 3 by (simp add: Set_add_def)
  have s: "set (dfs_stack ?st') \<subseteq> set rest \<union> endpoints g"
    using dfs_push_fold[of currentNode st1 ?ns] sorted_neighbors_endpoints[of lc g currentNode] 3
    by auto
  have "(endpoints g \<union> set (dfs_stack ?st')) - set (dfs_visited ?st')
          \<subseteq> (endpoints g \<union> set (dfs_stack st)) - set (dfs_visited st) - {currentNode}"
    using v s 3 by auto
  moreover have "currentNode \<in> (endpoints g \<union> set (dfs_stack st)) - set (dfs_visited st)"
    using 3 by simp
  ultimately have "(endpoints g \<union> set (dfs_stack ?st')) - set (dfs_visited ?st')
          \<subset> (endpoints g \<union> set (dfs_stack st)) - set (dfs_visited st)"
    by blast
  then have "card ((endpoints g \<union> set (dfs_stack ?st')) - set (dfs_visited ?st'))
          < card ((endpoints g \<union> set (dfs_stack st)) - set (dfs_visited st))"
    by (intro psubset_card_mono) (simp_all add: finite_endpoints)
  then show ?case by simp
qed

declare dfs_loop.simps [simp del]

record dfs_statistics =
  ds_nodesVisited :: nat
  ds_totalNodes :: nat
  ds_pathLength :: nat
  ds_searchType :: string

record dfs_result =
  d_algorithm :: string
  d_startNode :: string
  d_targetNode :: "string option"
  d_visitOrder :: "string list"
  d_path :: "string list"
  d_found :: bool
  d_distance :: int
  d_isComplete :: bool
  d_statistics :: dfs_statistics

text \<open>
  \<open>dfs\<close> checks its arguments first: the start must be a node, and so must a truthy target.
\<close>

definition dfs ::
  "(string \<Rightarrow> string \<Rightarrow> int) \<Rightarrow> graph \<Rightarrow> string \<Rightarrow> string option \<Rightarrow> (error + dfs_result) option" where
  "dfs lc g startNodeId targetNodeId =
     (if getNode g startNodeId = None then Some (Inl UnknownNodeError)
      else if truthy targetNodeId \<and> Option.bind targetNodeId (getNode g) = None
      then Some (Inl UnknownNodeError)
      else
        let st = dfs_loop lc g targetNodeId
                   \<lparr>dfs_visited = [], dfs_stack = [startNodeId], dfs_visitOrder = [],
                    dfs_parent = [(startNodeId, None)], dfs_found = False\<rparr>;
            finish = (\<lambda>finalPath distance.
               Some (Inr \<lparr>d_algorithm = ''DFS'', d_startNode = startNodeId,
                          d_targetNode = targetNodeId, d_visitOrder = dfs_visitOrder st,
                          d_path = finalPath,
                          d_found = (if truthy targetNodeId then dfs_found st else True),
                          d_distance = distance, d_isComplete = (\<not> truthy targetNodeId),
                          d_statistics = \<lparr>ds_nodesVisited = length (dfs_visited st),
                                           ds_totalNodes = length (nodes g),
                                           ds_pathLength = length finalPath,
                                           ds_searchType = (if truthy targetNodeId then ''targeted''
                                                            else ''complete'')\<rparr>\<rparr>))
        in case targetNodeId of
             Some t \<Rightarrow>
               if t \<noteq> []
               then (if dfs_found st
                     then Option.bind (reconstructPath (dfs_parent st) startNodeId t)
                            (\<lambda>finalPath. finish finalPath
                               (if length finalPath > 0 then int (length finalPath) - 1 else - 1))
                     else finish [] (- 1))
               else finish (dfs_visitOrder st)
                      (if length (dfs_visitOrder st) > 0 then int (length (dfs_visitOrder st)) - 1 else 0)
           | None \<Rightarrow> finish (dfs_visitOrder st)
                      (if length (dfs_visitOrder st) > 0 then int (length (dfs_visitOrder st)) - 1 else 0))"

subsection \<open>Hop counts\<close>

text \<open>
  \<open>walk g s n v\<close>: there is a path of \<open>n\<close> edges from \<open>s\<close> to \<open>v\<close>, each step going from a node to
  one of its \<open>getNeighbors\<close>.
\<close>

inductive walk :: "graph \<Rightarrow> string \<Rightarrow> nat \<Rightarrow> string \<Rightarrow> bool" for g :: graph and s :: string where
  walk_start: "walk g s 0 s"
| walk_step: "walk g s n u \<Longrightarrow> v \<in> set (getNeighbors g u) \<Longrightarrow> walk g s (Suc n) v"

text \<open>The hop count a \<open>distance\<close> map holds for a node (0 when it holds none).\<close>

definition dist_of :: "bfs_state \<Rightarrow> string \<Rightarrow> nat" where
  "dist_of st v = (case Map_get (bfs_distance st) v of Some (Num i) \<Rightarrow> nat i | _ \<Rightarrow> 0)"

text \<open>
  The invariant of the queue loop: the queue holds visited nodes, once each, in order of
  their hop counts, which span at most two consecutive values; the nodes already dequeued
  are no farther than the queued ones and have all their neighbours visited, one hop
  farther at most; every recorded hop count is the length of a path.
\<close>

definition bfs_inv :: "graph \<Rightarrow> string \<Rightarrow> bfs_state \<Rightarrow> bool" where
  "bfs_inv g s st =
     ((\<forall>v. (Map_get (bfs_distance st) v \<noteq> None) = (v \<in> set (bfs_visited st))) \<and>
      (\<forall>v d. Map_get (bfs_distance st) v = Some d \<longrightarrow> (\<exists>n. d = Num (int n) \<and> walk g s n v)) \<and>
      set (bfs_queue st) \<subseteq> set (bfs_visited st) \<and>
      distinct (bfs_queue st) \<and>
      sorted (map (dist_of st) (bfs_queue st)) \<and>
      (\<forall>q \<in> set (bfs_queue st). dist_of st q \<le> dist_of st (hd (bfs_queue st)) + 1) \<and>
      (\<forall>p \<in> set (bfs_visited st) - set (bfs_queue st). \<forall>q \<in> set (bfs_queue st).
          dist_of st p \<le> dist_of st q) \<and>
      (\<forall>p \<in> set (bfs_visited st) - set (bfs_queue st). \<forall>w \<in> set (getNeighbors g p).
          w \<in> set (bfs_visited st) \<and> dist_of st w \<le> dist_of st p + 1) \<and>
      s \<in> set (bfs_visited st) \<and> Map_get (bfs_distance st) s = Some (Num 0))"

section \<open>The algorithms: comparing two spanning trees\<close>

text \<open>
  \<open>Math.min(edge.source, edge.target)\<close> converts the two ids, which are strings, to numbers.
  Of that conversion this is the part the model knows for certain: the empty string is 0, a
  string of decimal digits below \<open>2^53\<close> is its value, and a string that begins with an ASCII
  letter other than \<open>I\<close> is \<open>NaN\<close> (a numeric string begins with white space, a sign, a
  digit, a dot or \<open>Infinity\<close>). On any other string the result is \<open>None\<close>: not modelled.
\<close>

definition is_ascii_letter :: "char \<Rightarrow> bool" where
  "is_ascii_letter c =
     ((65 \<le> (of_char c :: nat) \<and> (of_char c :: nat) \<le> 90) \<or>
      (97 \<le> (of_char c :: nat) \<and> (of_char c :: nat) \<le> 122))"

definition ToNumber :: "string \<Rightarrow> jsnum option" where
  "ToNumber s =
     (case s of
        [] \<Rightarrow> Some (Num 0)
      | c # _ \<Rightarrow>
          if list_all is_digit s
          then (if nat_of_digits s < 2 ^ 53 then Some (Num (int (nat_of_digits s))) else None)
          else if is_ascii_letter c \<and> c \<noteq> CHR ''I'' then Some NaN
          else None)"

text \<open>The key of an edge: \<open>`${Math.min(s, t)}-${Math.max(s, t)}-${weight}`\<close>.\<close>

definition normalize :: "edge \<Rightarrow> string option" where
  "normalize e =
     Option.bind (ToNumber (source e)) (\<lambda>s.
     Option.bind (ToNumber (target e)) (\<lambda>t.
       Some (string_of_jsnum (Math_min s t) @ ''-'' @ string_of_jsnum (Math_max s t) @ ''-'' @
             string_of_int (weight e))))"

text \<open>\<open>new Set(edges.map(normalize))\<close>; \<open>None\<close> if some key is not modelled.\<close>

fun normalize_all :: "edge list \<Rightarrow> string list option" where
  "normalize_all [] = Some []"
| "normalize_all (e # es) =
     Option.bind (normalize e) (\<lambda>k. Option.bind (normalize_all es) (\<lambda>ks. Some (k # ks)))"

definition Set_of :: "'a list \<Rightarrow> 'a list" where
  "Set_of xs = foldl Set_add [] xs"

definition areMSTsIdentical :: "edge list \<Rightarrow> edge list \<Rightarrow> bool option" where
  "areMSTsIdentical edges1 edges2 =
     (if length edges1 \<noteq> length edges2 then Some False
      else Option.bind (normalize_all edges1) (\<lambda>keys1.
           Option.bind (normalize_all edges2) (\<lambda>keys2.
             let set1 = Set_of keys1; set2 = Set_of keys2
             in if length set1 \<noteq> length set2 then Some False
                else Some (list_all (\<lambda>k. k \<in> set set2) set1))))"

text \<open>Two one-edge lists over different nodes, with the same weight.\<close>

definition edge_AB :: edge where
  "edge_AB = \<lparr>edge_id = ''edge_1'', source = ''A'', target = ''B'', weight = 1,
              edge_label = ''1'', directed = False\<rparr>"

definition edge_CD :: edge where
  "edge_CD = \<lparr>edge_id = ''edge_2'', source = ''C'', target = ''D'', weight = 1,
              edge_label = ''1'', directed = False\<rparr>"

section \<open>The algorithms: minimum spanning trees\<close>

subsection \<open>Kruskal\<close>

record kruskal_step =
  ks_edge :: edge
  ks_action :: string
  ks_reason :: string
  ks_currentMST :: "edge list"

record kruskal_state =
  k_mstEdges :: "edge list"
  k_unionFind :: "string UnionFind"
  k_steps :: "kruskal_step list"
  k_totalWeight :: jsnum

text \<open>\<open>parseFloat\<close> of a weight that is an integer number is that number.\<close>

definition parseFloat :: "int \<Rightarrow> int" where
  "parseFloat w = w"

text \<open>
  The body of the \<open>for (const edge of edges)\<close> loop, up to the test for the \<open>break\<close>. The
  union-find calls are partial functions, so the body is one too: \<open>None\<close> is "does not
  return". (The accented letter of the second reason is written as its two UTF-8 bytes.)
\<close>

definition kruskal_consider :: "kruskal_state \<Rightarrow> edge \<Rightarrow> kruskal_state option" where
  "kruskal_consider st e =
     Option.bind (UnionFind_connected (k_unionFind st) (Val (source e)) (Val (target e)))
       (\<lambda>(joined, uf1).
          if \<not> joined
          then Option.bind (UnionFind_union uf1 (Val (source e)) (Val (target e)))
                 (\<lambda>uf2. Some (st\<lparr>k_unionFind := uf2,
                                   k_mstEdges := k_mstEdges st @ [e],
                                   k_totalWeight := double_add (k_totalWeight st) (Num (weight e)),
                                   k_steps := k_steps st @
                                     [\<lparr>ks_edge = e, ks_action = ''added'',
                                       ks_reason = ''No forma ciclo'',
                                       ks_currentMST = k_mstEdges st @ [e]\<rparr>]\<rparr>))
          else Some (st\<lparr>k_unionFind := uf1,
                         k_steps := k_steps st @
                           [\<lparr>ks_edge = e, ks_action = ''rejected'',
                             ks_reason = ''Formar'' @ [CHR 0xC3, CHR 0xAD] @ ''a un ciclo'',
                             ks_currentMST = k_mstEdges st\<rparr>]\<rparr>))"

text \<open>The loop: it stops as soon as the tree has one edge less than the graph has nodes.\<close>

fun kruskal_loop :: "graph \<Rightarrow> edge list \<Rightarrow> kruskal_state \<Rightarrow> kruskal_state option" where
  "kruskal_loop g [] st = Some st"
| "kruskal_loop g (e # es) st =
     Option.bind (kruskal_consider st e)
       (\<lambda>st1. if int (length (k_mstEdges st1)) = int (length (nodes g)) - 1 then Some st1
               else kruskal_loop g es st1)"

record mst_statistics =
  ms_originalEdges :: nat
  ms_mstEdges :: nat
  ms_totalNodes :: nat
  ms_efficiency :: real

record kruskal_result =
  kr_algorithm :: string
  kr_mstEdges :: "edge list"
  kr_totalWeight :: jsnum
  kr_steps :: "kruskal_step list"
  kr_statistics :: mst_statistics

definition efficiency :: "nat \<Rightarrow> nat \<Rightarrow> real" where
  "efficiency mst_count node_count =
     (if node_count > 1 then real mst_count / (real node_count - 1) * 100 else 0)"

text \<open>
  The edges sorted by \<open>a.weight - b.weight\<close>. The sort reads only the sign of that
  difference, which is the sign of the exact difference: rounding changes neither.
\<close>

definition sorted_edges :: "graph \<Rightarrow> edge list" where
  "sorted_edges g =
     js_sort (\<lambda>a b. weight a - weight b)
       (map (\<lambda>e. e\<lparr>weight := parseFloat (weight e)\<rparr>) (getEdges g))"

definition kruskal :: "graph \<Rightarrow> (error + kruskal_result) option" where
  "kruskal g =
     (if \<not> isWeighted g then Some (Inl UnweightedGraphError)
      else Option.bind
             (kruskal_loop g (sorted_edges g)
                \<lparr>k_mstEdges = [], k_unionFind = UnionFind_new (Map_keys (nodes g)),
                 k_steps = [], k_totalWeight = Num 0\<rparr>)
             (\<lambda>st. Some (Inr \<lparr>kr_algorithm = ''Kruskal'', kr_mstEdges = k_mstEdges st,
                                kr_totalWeight = k_totalWeight st, kr_steps = k_steps st,
                                kr_statistics =
                                  \<lparr>ms_originalEdges = length (sorted_edges g),
                                   ms_mstEdges = length (k_mstEdges st),
                                   ms_totalNodes = length (nodes g),
                                   ms_efficiency = efficiency (length (k_mstEdges st))
                                                     (length (nodes g))\<rparr>\<rparr>)))"

subsection \<open>Prim\<close>

text \<open>
  One scan for the lightest edge out of the tree: for every node in the tree, for every
  neighbour outside it, \<open>getEdgeWeight\<close> is compared with the best so far, and on an
  improvement the edge is looked up again in the edge list.
\<close>

definition prim_consider ::
  "graph \<Rightarrow> string list \<Rightarrow> string \<Rightarrow> edge option \<times> jsnum \<Rightarrow> string \<Rightarrow> edge option \<times> jsnum" where
  "prim_consider g inMST nodeInMST best neighbor =
     (if neighbor \<notin> set inMST
      then let w = getEdgeWeight g nodeInMST neighbor
           in if js_lt w (snd best)
              then (case find (edge_joins g nodeInMST neighbor) (getEdges g) of
                      Some e \<Rightarrow> (Some e, w)
                    | None \<Rightarrow> (fst best, w))
              else best
      else best)"

definition prim_scan :: "graph \<Rightarrow> string list \<Rightarrow> edge option \<times> jsnum" where
  "prim_scan g inMST =
     foldl (\<lambda>best nodeInMST. foldl (prim_consider g inMST nodeInMST) best (getNeighbors g nodeInMST))
       (None, Infinity) inMST"

record prim_step =
  ps_edge :: edge
  ps_action :: string
  ps_newNode :: string
  ps_currentMST :: "edge list"
  ps_nodesInMST :: "string list"

record prim_state =
  p_inMST :: "string list"
  p_mstEdges :: "edge list"
  p_steps :: "prim_step list"
  p_totalWeight :: jsnum

definition prim_newNode :: "string list \<Rightarrow> edge \<Rightarrow> string" where
  "prim_newNode inMST minEdge = (if source minEdge \<in> set inMST then target minEdge else source minEdge)"

text \<open>What the scan has found is an edge from a tree node to a neighbour outside the tree.\<close>

definition scan_ok :: "graph \<Rightarrow> string list \<Rightarrow> edge option \<times> jsnum \<Rightarrow> bool" where
  "scan_ok g inMST best =
     (\<forall>e. fst best = Some e \<longrightarrow>
        (\<exists>n nb. n \<in> set inMST \<and> nb \<notin> set inMST \<and> edge_joins g n nb e))"

lemma prim_consider_ok:
  "scan_ok g inMST best \<Longrightarrow> n \<in> set inMST \<Longrightarrow> scan_ok g inMST (prim_consider g inMST n best nb)"
  by (auto simp: scan_ok_def prim_consider_def Let_def find_Some_iff split: option.splits)

lemma prim_consider_fold_ok:
  "scan_ok g inMST best \<Longrightarrow> n \<in> set inMST \<Longrightarrow>
   scan_ok g inMST (foldl (prim_consider g inMST n) best nbs)"
proof (induction nbs arbitrary: best)
  case Nil
  then show ?case by simp
next
  case (Cons nb nbs)
  from Cons.prems have "scan_ok g inMST (prim_consider g inMST n best nb)"
    by (intro prim_consider_ok)
  from Cons.IH[OF this Cons.prems(2)] show ?case by simp
qed

lemma prim_scan_fold_ok:
  "scan_ok g inMST best \<Longrightarrow> set ns \<subseteq> set inMST \<Longrightarrow>
   scan_ok g inMST (foldl (\<lambda>best n. foldl (prim_consider g inMST n) best (getNeighbors g n)) best ns)"
proof (induction ns arbitrary: best)
  case Nil
  then show ?case by simp
next
  case (Cons n ns)
  from Cons.prems have "scan_ok g inMST (foldl (prim_consider g inMST n) best (getNeighbors g n))"
    by (intro prim_consider_fold_ok) simp_all
  from Cons.IH[OF this] Cons.prems(2) show ?case by simp
qed

lemma prim_scan_ok: "scan_ok g inMST (prim_scan g inMST)"
  unfolding prim_scan_def by (rule prim_scan_fold_ok) (simp_all add: scan_ok_def)

lemma prim_newNode_fresh:
  assumes "prim_scan g inMST = (Some e, w)"
  shows "prim_newNode inMST e \<notin> set inMST"
proof -
  from prim_scan_ok[of g inMST] assms obtain n nb where
    "n \<in> set inMST" "nb \<notin> set inMST" "edge_joins g n nb e"
    by (auto simp: scan_ok_def)
  then show ?thesis by (auto simp: prim_newNode_def edge_joins_def)
qed

text \<open>
  The \<open>while (inMST.size < nodes.length)\<close> loop. It ends: every round that does not \<open>break\<close>
  adds a node that was not in the tree.
\<close>

function prim_loop :: "graph \<Rightarrow> prim_state \<Rightarrow> prim_state" where
  "prim_loop g st =
     (if length (p_inMST st) < length (Map_keys (nodes g))
      then (case prim_scan g (p_inMST st) of
              (Some minEdge, minWeight) \<Rightarrow>
                let newNode = prim_newNode (p_inMST st) minEdge;
                    mstEdges = p_mstEdges st @ [minEdge];
                    inMST = Set_add (p_inMST st) newNode
                in prim_loop g
                     (st\<lparr>p_mstEdges := mstEdges,
                         p_totalWeight := double_add (p_totalWeight st) minWeight,
                         p_inMST := inMST,
                         p_steps := p_steps st @
                           [\<lparr>ps_edge = minEdge, ps_action = ''added'', ps_newNode = newNode,
                             ps_currentMST = mstEdges, ps_nodesInMST = inMST\<rparr>]\<rparr>)
            | (None, minWeight) \<Rightarrow> st)
      else st)"
  by pat_completeness auto
termination
proof (relation "measure (\<lambda>(g, st). length (Map_keys (nodes g)) - length (p_inMST st))", goal_cases)
  case 1
  then show ?case by simp
next
  case (2 g st minEdgeOpt minWeight minEdge)
  then have "prim_scan g (p_inMST st) = (Some minEdge, minWeight)" by simp
  from prim_newNode_fresh[OF this] 2 show ?case by (simp add: Set_add_def)
qed

declare prim_loop.simps [simp del]

record prim_statistics =
  pst_totalNodes :: nat
  pst_mstEdges :: nat
  pst_nodesReached :: nat
  pst_isComplete :: bool
  pst_efficiency :: real

text \<open>
  The result of \<open>prim\<close>. On a graph without nodes the code returns only \<open>mstEdges\<close>,
  \<open>totalWeight\<close> and \<open>steps\<close>: the other fields are absent (\<open>None\<close>).
\<close>

record prim_result =
  pr_algorithm :: "string option"
  pr_startNode :: "string option"
  pr_mstEdges :: "edge list"
  pr_totalWeight :: jsnum
  pr_steps :: "prim_step list"
  pr_statistics :: "prim_statistics option"

definition prim :: "graph \<Rightarrow> string option \<Rightarrow> error + prim_result" where
  "prim g startNodeId =
     (if \<not> isWeighted g then Inl UnweightedGraphError
      else case Map_keys (nodes g) of
        [] \<Rightarrow> Inr \<lparr>pr_algorithm = None, pr_startNode = None, pr_mstEdges = [],
                     pr_totalWeight = Num 0, pr_steps = [], pr_statistics = None\<rparr>
      | first # others \<Rightarrow>
          let start = (case startNodeId of None \<Rightarrow> first
                       | Some s \<Rightarrow> if s = [] then first else s);
              st = prim_loop g \<lparr>p_inMST = [start], p_mstEdges = [], p_steps = [],
                                 p_totalWeight = Num 0\<rparr>
          in Inr \<lparr>pr_algorithm = Some ''Prim'', pr_startNode = Some start,
                   pr_mstEdges = p_mstEdges st, pr_totalWeight = p_totalWeight st,
                   pr_steps = p_steps st,
                   pr_statistics = Some
                     \<lparr>pst_totalNodes = length (nodes g), pst_mstEdges = length (p_mstEdges st),
                      pst_nodesReached = length (p_inMST st),
                      pst_isComplete = (length (p_inMST st) = length (Map_keys (nodes g))),
                      pst_efficiency = efficiency (length (p_mstEdges st)) (length (nodes g))\<rparr>\<rparr>)"

text \<open>
  \<open>Math.abs(kruskalResult.totalWeight - primResult.totalWeight) < 0.001\<close>, as in \<open>compareMST\<close>.
  The absolute value of an infinity is \<open>Infinity\<close>, and every comparison with \<open>NaN\<close> is false.
\<close>

definition sameWeight :: "jsnum \<Rightarrow> jsnum \<Rightarrow> bool" where
  "sameWeight kruskalWeight primWeight =
     (case double_sub kruskalWeight primWeight of
        Num d \<Rightarrow> \<bar>real_of_int d\<bar> < 1 / 1000
      | _ \<Rightarrow> False)"

subsection \<open>Spanning trees\<close>

text \<open>
  The notions the comparison of the two algorithms is stated with, for an undirected graph:
  an edge joins its two endpoints in either direction; a set of edges is a spanning tree when it
  has one edge less than there are nodes and links every two nodes.
\<close>

definition node_set :: "graph \<Rightarrow> string set" where
  "node_set g = set (Map_keys (nodes g))"

definition edge_set :: "graph \<Rightarrow> edge set" where
  "edge_set g = set (Map_values (edges g))"

definition joins :: "edge \<Rightarrow> string \<Rightarrow> string \<Rightarrow> bool" where
  "joins e u v = ((source e = u \<and> target e = v) \<or> (source e = v \<and> target e = u))"

definition adj_of :: "edge set \<Rightarrow> (string \<times> string) set" where
  "adj_of T = {(u, v). \<exists>e \<in> T. joins e u v}"

definition crossing :: "string set \<Rightarrow> edge \<Rightarrow> bool" where
  "crossing S e = ((source e \<in> S) \<noteq> (target e \<in> S))"

definition spanning_tree :: "graph \<Rightarrow> edge set \<Rightarrow> bool" where
  "spanning_tree g T =
     (T \<subseteq> edge_set g \<and> card T + 1 = card (node_set g) \<and>
      (\<forall>u \<in> node_set g. \<forall>v \<in> node_set g. (u, v) \<in> (adj_of T)\<^sup>*))"

definition weight_sum :: "edge set \<Rightarrow> int" where
  "weight_sum T = sum weight T"

text \<open>
  Invariant 2 of the data model on an undirected graph, as \<open>addEdge\<close> checks it: no two
  entries of the edge map join the same unordered pair of nodes.
\<close>

fun no_parallel :: "edge list \<Rightarrow> bool" where
  "no_parallel [] = True"
| "no_parallel (e # es) = ((\<forall>e' \<in> set es. \<not> joins e' (source e) (target e)) \<and> no_parallel es)"

definition connected_graph :: "graph \<Rightarrow> bool" where
  "connected_graph g = (\<forall>u \<in> node_set g. \<forall>v \<in> node_set g. \<exists>n. walk g u n v)"

text \<open>
  The weights of a graph add up exactly when their magnitudes sum to \<open>2^53\<close> at most: then
  every weight and every sum of some of the weights is an integer that is a double.
\<close>

definition exact_sums :: "graph \<Rightarrow> bool" where
  "exact_sums g = (sum_list (map (\<lambda>e. \<bar>weight e\<bar>) (getEdges g)) \<le> 2 ^ 53)"

text \<open>
  The graphs the comparison is about: weighted, undirected, well-formed (the keys of the
  node map are distinct, as the keys of a \<open>Map\<close> are; invariants 1 and 2 hold), connected,
  and with weights that add up exactly.
\<close>

definition mst_ready :: "graph \<Rightarrow> bool" where
  "mst_ready g =
     (isWeighted g \<and> \<not> isDirected g \<and> distinct (Map_keys (nodes g)) \<and>
      edges_reference_nodes g \<and> no_parallel (Map_values (edges g)) \<and> connected_graph g \<and>
      exact_sums g)"

subsection \<open>Invariants of the two loops\<close>

text \<open>
  \<open>best_for g S C best\<close>: of the pairs (tree node, neighbour) in \<open>C\<close> whose neighbour is outside
  \<open>S\<close>, \<open>best\<close> holds an edge of least weight with that weight, or nothing if there is no
  such pair.
\<close>

definition best_for :: "graph \<Rightarrow> string set \<Rightarrow> (string \<times> string) set \<Rightarrow> edge option \<times> jsnum \<Rightarrow> bool" where
  "best_for g S C best =
     (if \<exists>c \<in> C. snd c \<notin> S
      then (\<exists>e n nb. (n, nb) \<in> C \<and> nb \<notin> S \<and> e \<in> edge_set g \<and> joins e n nb \<and>
              best = (Some e, Num (weight e)) \<and>
              (\<forall>c \<in> C. snd c \<notin> S \<longrightarrow>
                 (\<forall>e' \<in> edge_set g. joins e' (fst c) (snd c) \<longrightarrow> weight e \<le> weight e')))
      else best = (None, Infinity))"

text \<open>
  \<open>extends_to_lightest g F\<close>: whatever spanning tree is given, some spanning tree contains \<open>F\<close>
  and is no heavier.
\<close>

definition extends_to_lightest :: "graph \<Rightarrow> edge set \<Rightarrow> bool" where
  "extends_to_lightest g F =
     (\<forall>T. spanning_tree g T \<longrightarrow> (\<exists>T'. spanning_tree g T' \<and> F \<subseteq> T' \<and> weight_sum T' \<le> weight_sum T))"

text \<open>The invariant of Prim's loop, for the start node \<open>s0\<close>.\<close>

definition prim_inv :: "graph \<Rightarrow> string \<Rightarrow> prim_state \<Rightarrow> bool" where
  "prim_inv g s0 st =
     (distinct (p_inMST st) \<and> set (p_inMST st) \<subseteq> node_set g \<and> s0 \<in> set (p_inMST st) \<and>
      distinct (p_mstEdges st) \<and> set (p_mstEdges st) \<subseteq> edge_set g \<and>
      (\<forall>f \<in> set (p_mstEdges st). source f \<in> set (p_inMST st) \<and> target f \<in> set (p_inMST st)) \<and>
      length (p_mstEdges st) + 1 = length (p_inMST st) \<and>
      (\<forall>u \<in> set (p_inMST st). (s0, u) \<in> (adj_of (set (p_mstEdges st)))\<^sup>*) \<and>
      p_totalWeight st = Num (weight_sum (set (p_mstEdges st))) \<and>
      extends_to_lightest g (set (p_mstEdges st)))"

text \<open>The representatives of the nodes: one for each class that holds a node.\<close>

definition reps :: "string UnionFind \<Rightarrow> string set \<Rightarrow> string jsval set" where
  "reps uf V = {r. \<exists>v \<in> V. root_of (parent_get uf) (Val v) r}"

text \<open>
  The invariant of Kruskal's loop after the edges \<open>P\<close> have been considered: every edge
  considered has its endpoints in one class, and each accepted edge has merged two classes.
\<close>

definition kruskal_inv :: "graph \<Rightarrow> edge list \<Rightarrow> kruskal_state \<Rightarrow> bool" where
  "kruskal_inv g P st =
     (chains_end (k_unionFind st) \<and> distinct (k_mstEdges st) \<and> set (k_mstEdges st) \<subseteq> set P \<and>
      (\<forall>p \<in> set P. same_class (k_unionFind st) (Val (source p)) (Val (target p))) \<and>
      length (k_mstEdges st) + card (reps (k_unionFind st) (node_set g)) = card (node_set g) \<and>
      k_totalWeight st = Num (weight_sum (set (k_mstEdges st))) \<and>
      extends_to_lightest g (set (k_mstEdges st)))"

text \<open>
  Two graphs built through the mutators: a directed one with the edges A->B (1) and B->A (5),
  and the undirected triangle A-B (1), B-C (2), A-C (4).
\<close>

definition graph_directed :: graph where
  "graph_directed = apply_mutations Graph_new
     [SetGraphType True True, AddNode (Some ''A'') [] 0 0 [], AddNode (Some ''B'') [] 0 0 [],
      AddEdge ''A'' ''B'' 1 [] None, AddEdge ''B'' ''A'' 5 [] None]"

definition graph_triangle :: graph where
  "graph_triangle = apply_mutations Graph_new
     [SetGraphType False True, AddNode (Some ''A'') [] 0 0 [], AddNode (Some ''B'') [] 0 0 [],
      AddNode (Some ''C'') [] 0 0 [],
      AddEdge ''A'' ''B'' 1 [] None, AddEdge ''B'' ''C'' 2 [] None, AddEdge ''A'' ''C'' 4 [] None]"

text \<open>
  The undirected path A-B (9007199254740992, which is \<open>2^53\<close>), B-C (1), C-D (1): a graph
  whose weights do not add up exactly.
\<close>

definition graph_path :: graph where
  "graph_path = apply_mutations Graph_new
     [SetGraphType False True, AddNode (Some ''A'') [] 0 0 [], AddNode (Some ''B'') [] 0 0 [],
      AddNode (Some ''C'') [] 0 0 [], AddNode (Some ''D'') [] 0 0 [],
      AddEdge ''A'' ''B'' 9007199254740992 [] None, AddEdge ''B'' ''C'' 1 [] None,
      AddEdge ''C'' ''D'' 1 [] None]"

section \<open>Lemmas about the containers and the mutators\<close>

lemma Map_has_set: "Map_has (Map_set m k v) k' = (k' = k \<or> Map_has m k')"
  by (induction m) (auto simp: Map_has_def split: if_splits)

lemma Map_values_set_subset: "set (Map_values (Map_set m k v)) \<subseteq> insert v (set (Map_values m))"
  by (induction m) (force simp: Map_values_def split: if_splits)+

lemma Map_get_set: "Map_get (Map_set m k v) k' = (if k' = k then Some v else Map_get m k')"
  by (induction m) (auto simp: Map_get_def)

lemma Map_has_keys: "Map_has m k = (k \<in> set (Map_keys m))"
  by (induction m) (auto simp: Map_has_def Map_keys_def)

lemma Map_keys_set: "set (Map_keys (Map_set m k v)) = insert k (set (Map_keys m))"
proof (induction m)
  case Nil
  then show ?case by (simp add: Map_keys_def)
next
  case (Cons a m)
  then show ?case by (cases a) (simp add: Map_keys_def insert_commute)
qed

lemma distinct_Map_set: "distinct (Map_keys m) \<Longrightarrow> distinct (Map_keys (Map_set m k v))"
proof (induction m)
  case Nil
  then show ?case by (simp add: Map_keys_def)
next
  case (Cons a m)
  have "set (Map_keys (Map_set m k v)) = insert k (set (Map_keys m))" by (rule Map_keys_set)
  with Cons show ?case by (cases a) (auto simp: Map_keys_def)
qed

lemma set_Map_delete: "set (Map_delete m k) = {kv \<in> set m. fst kv \<noteq> k}"
  by (auto simp: Map_delete_def)

lemma set_foldl_Map_delete: "set (foldl Map_delete m ks) = {kv \<in> set m. fst kv \<notin> set ks}"
  by (induction ks arbitrary: m) (auto simp: set_Map_delete)

lemma Map_has_delete: "Map_has (Map_delete m k) k' = (k' \<noteq> k \<and> Map_has m k')"
  by (induction m) (auto simp: Map_has_def Map_delete_def)

lemma distinct_Map_delete: "distinct (Map_keys m) \<Longrightarrow> distinct (Map_keys (Map_delete m k))"
  by (simp add: Map_keys_def Map_delete_def distinct_map_filter)

lemma Map_get_in: "Map_get m k = Some v \<Longrightarrow> v \<in> set (Map_values m)"
  by (auto simp: Map_get_def Map_values_def dest!: map_of_SomeD intro: rev_image_eqI)

lemma Map_get_has: "Map_get m k = Some v \<Longrightarrow> Map_has m k"
  by (simp add: Map_get_def Map_has_def)

lemma foldl_Map_set_has:
  "Map_has (foldl (\<lambda>m x. Map_set m (f x) x) m0 xs) k = (Map_has m0 k \<or> k \<in> f ` set xs)"
  by (induction xs arbitrary: m0) (auto simp: Map_has_set)

lemma foldl_Map_set_values:
  "set (Map_values (foldl (\<lambda>m x. Map_set m (f x) x) m0 xs)) \<subseteq> set (Map_values m0) \<union> set xs"
proof (induction xs arbitrary: m0)
  case Nil
  then show ?case by simp
next
  case (Cons x xs)
  have "set (Map_values (Map_set m0 (f x) x)) \<subseteq> insert x (set (Map_values m0))"
    by (rule Map_values_set_subset)
  with Cons[of "Map_set m0 (f x) x"] show ?case by auto
qed

lemma Map_set_fresh: "k \<notin> set (Map_keys m) \<Longrightarrow> Map_set m k v = m @ [(k, v)]"
  by (induction m) (auto simp: Map_keys_def)

lemma foldl_Map_set_rebuild:
  "distinct (Map_keys m) \<Longrightarrow> set (Map_keys m0) \<inter> set (Map_keys m) = {} \<Longrightarrow>
   (\<forall>kv \<in> set m. f (snd kv) = fst kv) \<Longrightarrow>
   foldl (\<lambda>acc v. Map_set acc (f v) v) m0 (Map_values m) = m0 @ m"
proof (induction m arbitrary: m0)
  case Nil
  then show ?case by (simp add: Map_values_def)
next
  case (Cons a m)
  obtain k v where a: "a = (k, v)" by (cases a)
  from Cons.prems a have fk: "f v = k" and knew: "k \<notin> set (Map_keys m0)"
    by (auto simp: Map_keys_def)
  have step: "Map_set m0 k v = m0 @ [(k, v)]" using knew by (rule Map_set_fresh)
  have "foldl (\<lambda>acc v. Map_set acc (f v) v) (m0 @ [(k, v)]) (Map_values m) = (m0 @ [(k, v)]) @ m"
    using Cons.prems a by (intro Cons.IH) (auto simp: Map_keys_def)
  then show ?case using a fk step by (simp add: Map_values_def)
qed

lemma next_node_id_state:
  "snd (next_node_id g nid) = (if falsy nid then g\<lparr>nodeIdCounter := nodeIdCounter g + 1\<rparr> else g)"
  by (cases nid) (auto simp: next_node_id_def)

lemma next_edge_id_state:
  "snd (next_edge_id g eid) = (if falsy eid then g\<lparr>edgeIdCounter := edgeIdCounter g + 1\<rparr> else g)"
  by (cases eid) (auto simp: next_edge_id_def)

lemma addNode_result:
  "addNode g nid lbl x y dat =
     (let i = fst (next_node_id g nid); g1 = snd (next_node_id g nid)
      in if Map_has (nodes g) i then (Inl DuplicateIdError, g1)
         else let n = \<lparr>node_id = i, node_label = (if lbl = [] then i else lbl),
                        node_x = x, node_y = y, node_data = dat\<rparr>
              in (Inr n, g1\<lparr>nodes := Map_set (nodes g) i n\<rparr>))"
  by (cases "next_node_id g nid") (use next_node_id_state[of g nid] in \<open>auto simp: addNode_def Let_def\<close>)

lemma addEdge_result:
  "addEdge g s t w lbl eid =
     (if \<not> Map_has (nodes g) s \<or> \<not> Map_has (nodes g) t then (Inl MissingEndpointError, g)
      else let i = fst (next_edge_id g eid); g1 = snd (next_edge_id g eid)
        in if edge_exists g s t then (Inl DuplicateEdgeError, g1)
           else let e = \<lparr>edge_id = i, source = s, target = t,
                          weight = (if isWeighted g then w else 1),
                          edge_label = (if lbl = [] then (if isWeighted g then string_of_int w else [])
                                        else lbl),
                          directed = isDirected g\<rparr>
                in (Inr e, g1\<lparr>edges := Map_set (edges g) i e\<rparr>))"
  by (cases "next_edge_id g eid")
     (use next_edge_id_state[of g eid] in \<open>auto simp: addEdge_def Let_def edge_exists_def\<close>)

lemma addNode_fields:
  "edges (snd (addNode g nid lbl x y dat)) = edges g"
  "isWeighted (snd (addNode g nid lbl x y dat)) = isWeighted g"
  "isDirected (snd (addNode g nid lbl x y dat)) = isDirected g"
  "Map_has (nodes g) k \<Longrightarrow> Map_has (nodes (snd (addNode g nid lbl x y dat))) k"
  by (auto simp: addNode_result next_node_id_state Let_def Map_has_set)

lemma addEdge_fields:
  "nodes (snd (addEdge g s t w lbl eid)) = nodes g"
  "isWeighted (snd (addEdge g s t w lbl eid)) = isWeighted g"
  "isDirected (snd (addEdge g s t w lbl eid)) = isDirected g"
  by (auto simp: addEdge_result next_edge_id_state Let_def)

lemma in_Map_values_set:
  "e \<in> set (Map_values (Map_set m k v)) \<Longrightarrow> e = v \<or> e \<in> set (Map_values m)"
  using Map_values_set_subset[of m k v] by auto

lemma addEdge_edges:
  assumes "e \<in> set (Map_values (edges (snd (addEdge g s t w lbl eid))))"
  shows "e \<in> set (Map_values (edges g)) \<or>
         (source e = s \<and> target e = t \<and> Map_has (nodes g) s \<and> Map_has (nodes g) t \<and>
          weight e = (if isWeighted g then w else 1))"
  using assms
  by (auto simp: addEdge_result next_edge_id_state Let_def split: if_splits dest!: in_Map_values_set)

lemma removeNode_edges:
  "set (edges (snd (removeNode g i))) \<subseteq> set (edges g)"
  "Map_has (nodes g) i \<Longrightarrow>
   set (edges (snd (removeNode g i))) \<subseteq> {kv \<in> set (edges g). source (snd kv) \<noteq> i \<and> target (snd kv) \<noteq> i}"
proof -
  show "set (edges (snd (removeNode g i))) \<subseteq> set (edges g)"
    by (auto simp: removeNode_def Let_def set_foldl_Map_delete)
  show "Map_has (nodes g) i \<Longrightarrow>
   set (edges (snd (removeNode g i))) \<subseteq> {kv \<in> set (edges g). source (snd kv) \<noteq> i \<and> target (snd kv) \<noteq> i}"
    by (force simp: removeNode_def Let_def set_foldl_Map_delete)
qed

lemma removeNode_fields:
  "isWeighted (snd (removeNode g i)) = isWeighted g"
  "isDirected (snd (removeNode g i)) = isDirected g"
  "Map_has (nodes (snd (removeNode g i))) k = (k \<noteq> i \<and> Map_has (nodes g) k)"
  by (auto simp: removeNode_def Let_def Map_has_delete)

lemma removeEdge_fields:
  "isWeighted (snd (removeEdge g i)) = isWeighted g"
  "isDirected (snd (removeEdge g i)) = isDirected g"
  "nodes (snd (removeEdge g i)) = nodes g"
  "set (edges (snd (removeEdge g i))) \<subseteq> set (edges g)"
  by (auto simp: removeEdge_def set_Map_delete)

lemma updateNode_fields:
  "isWeighted (updateNode g i p) = isWeighted g"
  "isDirected (updateNode g i p) = isDirected g"
  "edges (updateNode g i p) = edges g"
  "Map_has (nodes (updateNode g i p)) k = Map_has (nodes g) k"
  by (auto simp: updateNode_def Map_has_set split: option.splits dest: Map_get_has)

lemma updateNodePosition_fields:
  "isWeighted (updateNodePosition g i x y) = isWeighted g"
  "isDirected (updateNodePosition g i x y) = isDirected g"
  "edges (updateNodePosition g i x y) = edges g"
  "Map_has (nodes (updateNodePosition g i x y)) k = Map_has (nodes g) k"
  by (auto simp: updateNodePosition_def Map_has_set split: option.splits dest: Map_get_has)

lemma updateEdge_fields:
  "isWeighted (updateEdge g i p) = isWeighted g"
  "isDirected (updateEdge g i p) = isDirected g"
  "nodes (updateEdge g i p) = nodes g"
  by (auto simp: updateEdge_def split: option.splits)

lemma updateEdge_edges:
  assumes "e \<in> set (Map_values (edges (updateEdge g i p)))"
  shows "e \<in> set (Map_values (edges g)) \<or> (\<exists>e0 \<in> set (Map_values (edges g)). e = assign_edge e0 p)"
  using assms
  by (auto simp: updateEdge_def split: option.splits dest!: in_Map_values_set dest: Map_get_in)

lemma Map_has_Nil: "Map_has [] k = False"
  by (simp add: Map_has_def)

lemma fromJSON_fields:
  "isWeighted (fromJSON g d) = s_isWeighted d"
  "isDirected (fromJSON g d) = s_isDirected d"
  "Map_has (nodes (fromJSON g d)) k = (k \<in> node_id ` set (s_nodes d))"
  "set (Map_values (edges (fromJSON g d))) \<subseteq> set (s_edges d)"
  using foldl_Map_set_values[of edge_id "[]" "s_edges d"]
  by (auto simp: fromJSON_def Let_def clear_def foldl_Map_set_has Map_has_Nil Map_values_def)

lemma in_Map_values: "e \<in> set (Map_values m) = (\<exists>k. (k, e) \<in> set m)"
  by (force simp: Map_values_def)

lemma keeps_endpoints_step:
  assumes "edges_reference_nodes g" "keeps_endpoints m"
  shows "edges_reference_nodes (apply_mutation g m)"
proof (cases m)
  case (AddNode nid lbl x y dat)
  with assms show ?thesis by (auto simp: edges_reference_nodes_def addNode_fields)
next
  case (RemoveNode i)
  show ?thesis
  proof (cases "Map_has (nodes g) i")
    case True
    with assms RemoveNode removeNode_edges(2)[of g i] show ?thesis
      by (fastforce simp: edges_reference_nodes_def removeNode_fields in_Map_values)
  next
    case False
    with assms RemoveNode show ?thesis by (simp add: removeNode_def)
  qed
next
  case (AddEdge s t w lbl eid)
  with assms show ?thesis
    by (auto simp: edges_reference_nodes_def addEdge_fields dest!: addEdge_edges)
next
  case (RemoveEdge i)
  with assms removeEdge_fields(4)[of g i] show ?thesis
    by (fastforce simp: edges_reference_nodes_def removeEdge_fields(1-3) in_Map_values)
next
  case (UpdateNodePosition i x y)
  with assms show ?thesis by (auto simp: edges_reference_nodes_def updateNodePosition_fields)
next
  case (UpdateNode i p)
  with assms show ?thesis by (auto simp: edges_reference_nodes_def updateNode_fields)
next
  case (UpdateEdge i p)
  with assms show ?thesis
    by (auto simp: edges_reference_nodes_def updateEdge_fields assign_edge_def assign_field_def
             dest!: updateEdge_edges)
next
  case (SetGraphType d w)
  with assms show ?thesis by (auto simp: edges_reference_nodes_def setGraphType_def)
next
  case Clear
  then show ?thesis by (auto simp: edges_reference_nodes_def clear_def Map_values_def)
next
  case (FromJSON d)
  with assms fromJSON_fields(4)[of g d] show ?thesis
    by (auto simp: edges_reference_nodes_def fromJSON_fields(3))
qed

lemma keeps_endpoints_run:
  "edges_reference_nodes g \<Longrightarrow> \<forall>m \<in> set ms. keeps_endpoints m \<Longrightarrow>
   edges_reference_nodes (foldl apply_mutation g ms)"
  by (induction ms arbitrary: g) (auto intro: keeps_endpoints_step)

lemma string_of_int_1: "string_of_int 1 = ''1''"
  by code_simp

lemma graph_AB_eq:
  "graph_AB = \<lparr>nodes = [(''A'', \<lparr>node_id = ''A'', node_label = ''A'', node_x = 0, node_y = 0, node_data = []\<rparr>),
                         (''B'', \<lparr>node_id = ''B'', node_label = ''B'', node_x = 0, node_y = 0, node_data = []\<rparr>)],
               edges = [(''edge_1'', \<lparr>edge_id = ''edge_1'', source = ''A'', target = ''B'', weight = 1,
                                      edge_label = [], directed = False\<rparr>)],
               isDirected = False, isWeighted = False, nodeIdCounter = 1, edgeIdCounter = 2\<rparr>"
  by (simp add: graph_AB_def apply_mutations_def Graph_new_def addNode_def addEdge_def next_node_id_def
      next_edge_id_def Map_has_def edge_exists_def Map_values_def string_of_int_1 Let_def)

lemma keeps_unit_weights_step:
  assumes "\<not> isWeighted g" "unit_weights g" "keeps_unit_weights m"
  shows "\<not> isWeighted (apply_mutation g m) \<and> unit_weights (apply_mutation g m)"
proof (cases m)
  case (AddNode nid lbl x y dat)
  with assms show ?thesis by (auto simp: unit_weights_def addNode_fields)
next
  case (RemoveNode i)
  with assms removeNode_edges(1)[of g i] show ?thesis
    by (fastforce simp: unit_weights_def removeNode_fields in_Map_values)
next
  case (AddEdge s t w lbl eid)
  with assms show ?thesis
    by (auto simp: unit_weights_def addEdge_fields dest!: addEdge_edges)
next
  case (RemoveEdge i)
  with assms removeEdge_fields(4)[of g i] show ?thesis
    by (fastforce simp: unit_weights_def removeEdge_fields(1-3) in_Map_values)
next
  case (UpdateNodePosition i x y)
  with assms show ?thesis by (auto simp: unit_weights_def updateNodePosition_fields)
next
  case (UpdateNode i p)
  with assms show ?thesis by (auto simp: unit_weights_def updateNode_fields)
next
  case (UpdateEdge i p)
  with assms show ?thesis
    by (auto simp: unit_weights_def updateEdge_fields assign_edge_def assign_field_def
             dest!: updateEdge_edges)
next
  case (SetGraphType d w)
  with assms show ?thesis by (auto simp: unit_weights_def setGraphType_def)
next
  case Clear
  with assms show ?thesis by (auto simp: unit_weights_def clear_def Map_values_def)
next
  case (FromJSON d)
  with assms fromJSON_fields(4)[of g d] show ?thesis
    by (auto simp: unit_weights_def fromJSON_fields(1))
qed

lemma keeps_unit_weights_run:
  "\<not> isWeighted g \<Longrightarrow> unit_weights g \<Longrightarrow> \<forall>m \<in> set ms. keeps_unit_weights m \<Longrightarrow>
   \<not> isWeighted (foldl apply_mutation g ms) \<and> unit_weights (foldl apply_mutation g ms)"
proof (induction ms arbitrary: g)
  case Nil
  then show ?case by simp
next
  case (Cons m ms)
  from Cons.prems have "\<not> isWeighted (apply_mutation g m) \<and> unit_weights (apply_mutation g m)"
    by (intro keeps_unit_weights_step) auto
  with Cons show ?case by simp
qed

lemma getEdgeWeight_unit:
  assumes "unit_weights g" "e \<in> set (Map_values (edges g))"
  shows "getEdgeWeight g (source e) (target e) = Num 1"
proof (cases "find (edge_joins g (source e) (target e)) (Map_values (edges g))")
  case None
  with assms(2) have "\<not> edge_joins g (source e) (target e) e"
    by (auto simp: find_None_iff)
  then show ?thesis by (simp add: edge_joins_def)
next
  case (Some e')
  then have "e' \<in> set (Map_values (edges g))"
    by (auto simp: find_Some_iff)
  with assms(1) Some show ?thesis by (simp add: getEdgeWeight_def unit_weights_def)
qed

section \<open>Lemmas about the disjoint-set structure\<close>

lemma root_of_fixed: "root_of P x r \<Longrightarrow> P r = r"
  by (induction rule: root_of.induct) auto

lemma root_of_unique: "root_of P x r \<Longrightarrow> root_of P x r' \<Longrightarrow> r = r'"
proof (induction arbitrary: r' rule: root_of.induct)
  case (root x)
  then show ?case by (auto elim: root_of.cases)
next
  case (step x r)
  from step.prems step.hyps(1) have "root_of P (P x) r'"
    by (auto elim: root_of.cases)
  then show ?case by (rule step.IH)
qed

lemma root_of_root: "P r = r \<Longrightarrow> root_of P r r' \<Longrightarrow> r' = r"
  by (auto elim: root_of.cases)

lemma compress_forward:
  assumes xr: "root_of P x r" and y: "root_of P y r'" and P': "\<And>z. P' z = (if z = x then r else P z)"
  shows "root_of P' y r'"
  using y
proof (induction rule: root_of.induct)
  case (root y)
  show ?case
  proof (cases "y = x")
    case True
    with root xr have "r = x" by (auto dest: root_of_root)
    with True root P' show ?thesis by (auto intro: root_of.root)
  next
    case False
    with root P' show ?thesis by (auto intro: root_of.root)
  qed
next
  case (step y r')
  show ?case
  proof (cases "y = x")
    case False
    with step P' show ?thesis by (auto intro: root_of.step)
  next
    case True
    from step.hyps have "root_of P y r'" by (auto intro: root_of.step)
    with True xr have rr: "r' = r" by (auto dest: root_of_unique)
    from xr have fr: "P r = r" by (rule root_of_fixed)
    with step.hyps(1) True have ne: "r \<noteq> x" by auto
    then have "root_of P' r r" using fr P' by (auto intro: root_of.root)
    then have "root_of P' (P' x) r" using P' by simp
    moreover have "P' x \<noteq> x" using ne P' by simp
    ultimately have "root_of P' x r" by (rule root_of.step[rotated])
    then show ?thesis using True rr by simp
  qed
qed

lemma compress_backward:
  assumes xr: "root_of P x r" and y: "root_of P' y r'" and P': "\<And>z. P' z = (if z = x then r else P z)"
  shows "root_of P y r'"
  using y
proof (induction rule: root_of.induct)
  case (root y)
  show ?case
  proof (cases "y = x")
    case True
    with root P' have "r = x" by auto
    with xr True show ?thesis by simp
  next
    case False
    with root P' show ?thesis by (auto intro: root_of.root)
  qed
next
  case (step y r')
  show ?case
  proof (cases "y = x")
    case False
    with step P' show ?thesis by (auto intro: root_of.step)
  next
    case True
    from xr have fr: "P r = r" by (rule root_of_fixed)
    from step.IH True P' have "root_of P r r'" by simp
    with fr have "r' = r" by (rule root_of_root)
    with xr True show ?thesis by simp
  qed
qed

lemma compress_roots:
  "root_of P x r \<Longrightarrow> root_of (P(x := r)) y r' = root_of P y r'"
  using compress_forward[of P x r y r' "P(x := r)"] compress_backward[of P x r "P(x := r)" y r']
  by auto

lemma parent_get_set:
  "parent_get (u\<lparr>parent := Map_set (parent u) x r\<rparr>) = (parent_get u)(x := r)"
  by (auto simp: parent_get_def Map_get_set fun_eq_iff)

text \<open>\<open>find\<close> returns the end of the chain and keeps every chain's end.\<close>

lemma find_root:
  assumes "root_of (parent_get u) x r"
  shows "\<exists>u'. UnionFind_find u x = Some (r, u') \<and> rank u' = rank u \<and>
              (\<forall>y r'. root_of (parent_get u') y r' = root_of (parent_get u) y r')"
  using assms
proof (induction rule: root_of.induct)
  case (root x)
  then show ?case by (subst UnionFind_find.simps) simp
next
  case (step x r)
  from step.IH obtain u1 where u1: "UnionFind_find u (parent_get u x) = Some (r, u1)"
    "rank u1 = rank u" "\<forall>y r'. root_of (parent_get u1) y r' = root_of (parent_get u) y r'"
    by blast
  let ?u2 = "u1\<lparr>parent := Map_set (parent u1) x r\<rparr>"
  have xr: "root_of (parent_get u1) x r"
    using u1(3) step.hyps by (auto intro: root_of.step)
  have "UnionFind_find u x = Some (r, ?u2)"
    using step.hyps(1) u1(1) by (subst UnionFind_find.simps) (simp add: parent_get_set)
  moreover have "\<forall>y r'. root_of (parent_get ?u2) y r' = root_of (parent_get u) y r'"
    using compress_roots[OF xr] u1(3) by (simp add: parent_get_set)
  ultimately show ?case using u1(2) by simp
qed

lemma link_backward:
  assumes ab: "P a = a" "P b = b" "a \<noteq> b" and P': "\<And>z. P' z = (if z = b then a else P z)"
    and y: "root_of P y r0"
  shows "root_of P' y (if r0 = b then a else r0)"
  using y
proof (induction rule: root_of.induct)
  case (root y)
  show ?case
  proof (cases "y = b")
    case True
    have "root_of P' a a" using ab P' by (auto intro: root_of.root)
    then have "root_of P' (P' b) a" using P' by simp
    moreover have "P' b \<noteq> b" using ab P' by simp
    ultimately have "root_of P' b a" by (rule root_of.step[rotated])
    with True show ?thesis by simp
  next
    case False
    with root P' show ?thesis by (auto intro: root_of.root)
  qed
next
  case (step y r0)
  from step.hyps(1) ab have "y \<noteq> b" by auto
  with step P' show ?case by (auto intro: root_of.step)
qed

lemma link_roots:
  assumes wf: "\<forall>x. \<exists>r. root_of P x r"
    and ab: "P a = a" "P b = b" "a \<noteq> b" and P': "\<And>z. P' z = (if z = b then a else P z)"
  shows "root_of P' y r' = (\<exists>r0. root_of P y r0 \<and> r' = (if r0 = b then a else r0))"
proof
  assume l: "root_of P' y r'"
  from wf obtain r0 where r0: "root_of P y r0" by blast
  from link_backward[OF ab P' r0] l have "r' = (if r0 = b then a else r0)"
    by (auto dest: root_of_unique)
  with r0 show "\<exists>r0. root_of P y r0 \<and> r' = (if r0 = b then a else r0)" by blast
next
  assume "\<exists>r0. root_of P y r0 \<and> r' = (if r0 = b then a else r0)"
  then show "root_of P' y r'" using link_backward[OF ab P'] by auto
qed

lemma same_class_refl: "chains_end u \<Longrightarrow> same_class u x x"
  by (auto simp: chains_end_def same_class_def)

lemma same_class_sym: "same_class u x y \<Longrightarrow> same_class u y x"
  by (auto simp: same_class_def)

lemma same_class_trans: "same_class u x y \<Longrightarrow> same_class u y z \<Longrightarrow> same_class u x z"
  by (auto simp: same_class_def dest: root_of_unique)

lemma same_class_roots:
  "root_of (parent_get u) x rx \<Longrightarrow> root_of (parent_get u) y ry \<Longrightarrow> same_class u x y = (rx = ry)"
  by (auto simp: same_class_def dest: root_of_unique)

text \<open>What \<open>find\<close> does, in terms of classes.\<close>

lemma find_classes:
  assumes "chains_end u"
  shows "\<exists>r u'. UnionFind_find u x = Some (r, u') \<and> root_of (parent_get u) x r \<and>
           rank u' = rank u \<and> chains_end u' \<and>
           (\<forall>y r'. root_of (parent_get u') y r' = root_of (parent_get u) y r')"
proof -
  from assms obtain r where r: "root_of (parent_get u) x r" by (auto simp: chains_end_def)
  from find_root[OF r] obtain u' where u': "UnionFind_find u x = Some (r, u')" "rank u' = rank u"
    "\<forall>y r'. root_of (parent_get u') y r' = root_of (parent_get u) y r'" by blast
  from u'(3) assms have "chains_end u'" by (simp add: chains_end_def)
  with r u' show ?thesis by blast
qed

lemma connected_classes:
  assumes "chains_end u"
  shows "\<exists>u'. UnionFind_connected u x y = Some (same_class u x y, u') \<and> chains_end u' \<and>
           (\<forall>y r'. root_of (parent_get u') y r' = root_of (parent_get u) y r')"
proof -
  from find_classes[OF assms, of x] obtain rx u1 where 1: "UnionFind_find u x = Some (rx, u1)"
    "root_of (parent_get u) x rx" "chains_end u1"
    "\<forall>y r'. root_of (parent_get u1) y r' = root_of (parent_get u) y r'" by blast
  from find_classes[OF 1(3), of y] obtain ry u2 where 2: "UnionFind_find u1 y = Some (ry, u2)"
    "root_of (parent_get u1) y ry" "chains_end u2"
    "\<forall>y r'. root_of (parent_get u2) y r' = root_of (parent_get u1) y r'" by blast
  have "same_class u x y = (rx = ry)" using 1(2) 2(2) 1(4) by (simp add: same_class_roots)
  then have "UnionFind_connected u x y = Some (same_class u x y, u2)"
    using 1(1) 2(1) by (simp add: UnionFind_connected_def)
  then show ?thesis using 2(3) 2(4) 1(4) by auto
qed

text \<open>
  What \<open>union\<close> does: both arguments are compressed, then one root is linked below the
  other (which one, the ranks decide); every chain that ended in the linked root now ends in
  the other one.
\<close>

lemma union_roots:
  assumes "chains_end u"
  shows "\<exists>u' ra rb c d. UnionFind_union u a b = Some u' \<and> chains_end u' \<and>
           root_of (parent_get u) a ra \<and> root_of (parent_get u) b rb \<and>
           ((ra = rb \<and> c = d) \<or> (ra \<noteq> rb \<and> ((c = ra \<and> d = rb) \<or> (c = rb \<and> d = ra)))) \<and>
           (\<forall>z r'. root_of (parent_get u') z r' =
              (\<exists>r0. root_of (parent_get u) z r0 \<and> r' = (if r0 = c then d else r0)))"
proof -
  from find_classes[OF assms, of a] obtain ra u1 where 1: "UnionFind_find u a = Some (ra, u1)"
    "root_of (parent_get u) a ra" "chains_end u1"
    "\<forall>y r'. root_of (parent_get u1) y r' = root_of (parent_get u) y r'" by blast
  from find_classes[OF 1(3), of b] obtain rb u2 where 2: "UnionFind_find u1 b = Some (rb, u2)"
    "root_of (parent_get u1) b rb" "chains_end u2"
    "\<forall>y r'. root_of (parent_get u2) y r' = root_of (parent_get u1) y r'" by blast
  have eq: "\<And>y r'. root_of (parent_get u2) y r' = root_of (parent_get u) y r'"
    using 1(4) 2(4) by simp
  have a0: "root_of (parent_get u) a ra" and b0: "root_of (parent_get u) b rb"
    using 1(2) 2(2) 1(4) by auto
  show ?thesis
  proof (cases "ra = rb")
    case True
    then have "UnionFind_union u a b = Some u2"
      using 1(1) 2(1) by (simp add: UnionFind_union_def)
    moreover have "\<forall>z r'. root_of (parent_get u2) z r' =
              (\<exists>r0. root_of (parent_get u) z r0 \<and> r' = (if r0 = ra then ra else r0))"
      using eq by auto
    ultimately show ?thesis using 2(3) a0 b0 True by blast
  next
    case False
    have fa: "parent_get u2 ra = ra" and fb: "parent_get u2 rb = rb"
      using a0 b0 eq by (auto dest: root_of_fixed)
    have wf2: "\<forall>x. \<exists>r. root_of (parent_get u2) x r" using 2(3) by (simp add: chains_end_def)
    have link: "chains_end u' \<and> (\<forall>z r'. root_of (parent_get u') z r' =
              (\<exists>r0. root_of (parent_get u) z r0 \<and> r' = (if r0 = c then d else r0)))"
      if P': "\<And>z. parent_get u' z = (if z = c then d else parent_get u2 z)"
        and cd: "(c = ra \<and> d = rb) \<or> (c = rb \<and> d = ra)" for u' c d
    proof -
      from cd False fa fb have dc: "parent_get u2 d = d" "parent_get u2 c = c" "d \<noteq> c" by auto
      have roots: "\<And>y r'. root_of (parent_get u') y r' =
                     (\<exists>r0. root_of (parent_get u2) y r0 \<and> r' = (if r0 = c then d else r0))"
        using link_roots[OF wf2 dc P'] by simp
      have "chains_end u'" unfolding chains_end_def using roots wf2 by metis
      then show ?thesis using roots eq by simp
    qed
    let ?r1 = "Map_get (rank u2) ra" and ?r2 = "Map_get (rank u2) rb"
    consider (lt) "rank_lt ?r1 ?r2" | (gt) "\<not> rank_lt ?r1 ?r2" "rank_lt ?r2 ?r1"
      | (eq) "\<not> rank_lt ?r1 ?r2" "\<not> rank_lt ?r2 ?r1" by blast
    then show ?thesis
    proof cases
      case lt
      let ?u' = "u2\<lparr>parent := Map_set (parent u2) ra rb\<rparr>"
      have "UnionFind_union u a b = Some ?u'"
        using 1(1) 2(1) False lt by (simp add: UnionFind_union_def Let_def)
      moreover have "\<And>z. parent_get ?u' z = (if z = ra then rb else parent_get u2 z)"
        by (simp add: parent_get_set)
      from link[OF this] have "chains_end ?u' \<and> (\<forall>z r'. root_of (parent_get ?u') z r' =
              (\<exists>r0. root_of (parent_get u) z r0 \<and> r' = (if r0 = ra then rb else r0)))" by simp
      ultimately show ?thesis using a0 b0 False by blast
    next
      case gt
      let ?u' = "u2\<lparr>parent := Map_set (parent u2) rb ra\<rparr>"
      have "UnionFind_union u a b = Some ?u'"
        using 1(1) 2(1) False gt by (simp add: UnionFind_union_def Let_def)
      moreover have "\<And>z. parent_get ?u' z = (if z = rb then ra else parent_get u2 z)"
        by (simp add: parent_get_set)
      from link[OF this] have "chains_end ?u' \<and> (\<forall>z r'. root_of (parent_get ?u') z r' =
              (\<exists>r0. root_of (parent_get u) z r0 \<and> r' = (if r0 = rb then ra else r0)))" by simp
      ultimately show ?thesis using a0 b0 False by blast
    next
      case eq
      let ?u' = "u2\<lparr>parent := Map_set (parent u2) rb ra,
                     rank := Map_set (rank u2) ra (rank_succ (Map_get (rank u2) ra))\<rparr>"
      have "UnionFind_union u a b = Some ?u'"
        using 1(1) 2(1) False eq by (simp add: UnionFind_union_def Let_def)
      moreover have "\<And>z. parent_get ?u' z = (if z = rb then ra else parent_get u2 z)"
        by (simp add: parent_get_def Map_get_set)
      from link[OF this] have "chains_end ?u' \<and> (\<forall>z r'. root_of (parent_get ?u') z r' =
              (\<exists>r0. root_of (parent_get u) z r0 \<and> r' = (if r0 = rb then ra else r0)))" by simp
      ultimately show ?thesis using a0 b0 False by blast
    qed
  qed
qed

lemma union_classes:
  assumes "chains_end u"
  shows "\<exists>u'. UnionFind_union u a b = Some u' \<and> chains_end u' \<and>
           (\<forall>x y. same_class u' x y =
              (same_class u x y \<or> (same_class u x a \<and> same_class u b y) \<or>
               (same_class u x b \<and> same_class u a y)))"
proof -
  from union_roots[OF assms, of a b] obtain u' ra rb c d where
    u: "UnionFind_union u a b = Some u'" "chains_end u'"
    and a0: "root_of (parent_get u) a ra" and b0: "root_of (parent_get u) b rb"
    and cd: "(ra = rb \<and> c = d) \<or> (ra \<noteq> rb \<and> ((c = ra \<and> d = rb) \<or> (c = rb \<and> d = ra)))"
    and roots: "\<And>z r'. root_of (parent_get u') z r' =
              (\<exists>r0. root_of (parent_get u) z r0 \<and> r' = (if r0 = c then d else r0))"
    by blast
  have "same_class u' x y =
              (same_class u x y \<or> (same_class u x a \<and> same_class u b y) \<or>
               (same_class u x b \<and> same_class u a y))" for x y
  proof -
    from assms obtain rx ry where rx: "root_of (parent_get u) x rx"
      and ry: "root_of (parent_get u) y ry" unfolding chains_end_def by blast
    have xa: "same_class u x a = (rx = ra)" "same_class u x b = (rx = rb)"
      "same_class u b y = (ry = rb)" "same_class u a y = (ry = ra)" "same_class u x y = (rx = ry)"
      using same_class_roots[OF rx a0] same_class_roots[OF rx b0] same_class_roots[OF b0 ry]
        same_class_roots[OF a0 ry] same_class_roots[OF rx ry]
      by (auto simp: eq_commute)
    have "same_class u' x y = ((if rx = c then d else rx) = (if ry = c then d else ry))"
      using rx ry roots unfolding same_class_def by (metis root_of_unique)
    then show ?thesis using cd unfolding xa by auto
  qed
  with u show ?thesis by blast
qed

text \<open>A value outside the classes of both arguments keeps its representative.\<close>

lemma union_other_root:
  assumes "chains_end u" "root_of (parent_get u) z rz" "\<not> same_class u z a" "\<not> same_class u z b"
    "UnionFind_union u a b = Some u'"
  shows "root_of (parent_get u') z rz"
proof -
  from union_roots[OF assms(1), of a b] assms(5) obtain ra rb c d where
    a0: "root_of (parent_get u) a ra" and b0: "root_of (parent_get u) b rb"
    and cd: "(ra = rb \<and> c = d) \<or> (ra \<noteq> rb \<and> ((c = ra \<and> d = rb) \<or> (c = rb \<and> d = ra)))"
    and roots: "\<And>z r'. root_of (parent_get u') z r' =
              (\<exists>r0. root_of (parent_get u) z r0 \<and> r' = (if r0 = c then d else r0))"
    by auto
  have "rz \<noteq> ra" "rz \<noteq> rb"
    using assms(3,4) same_class_roots[OF assms(2) a0] same_class_roots[OF assms(2) b0] by auto
  with cd have "(if rz = c then d else rz) = rz" by auto
  with roots[of z rz] assms(2) show ?thesis by auto
qed

lemma parent_get_foldl_new:
  "parent_get (foldl (\<lambda>u element. u\<lparr>parent := Map_set (parent u) (Val element) (Val element),
                            rank := Map_set (rank u) (Val element) (Num 0)\<rparr>) u0 es) x =
     (if x \<in> Val ` set es then x else parent_get u0 x)"
proof (induction es arbitrary: u0)
  case Nil
  then show ?case by simp
next
  case (Cons e es)
  show ?case
    by (simp add: Cons.IH) (auto simp: parent_get_def Map_get_set)
qed

lemma parent_get_new:
  "parent_get (UnionFind_new es) x = (if x \<in> Val ` set es then x else Undefined)"
  unfolding UnionFind_new_def parent_get_foldl_new by (simp add: parent_get_def Map_get_def)

lemma new_roots:
  "root_of (parent_get (UnionFind_new es)) x (if x \<in> Val ` set es then x else Undefined)"
proof (cases "x \<in> Val ` set es \<or> x = Undefined")
  case True
  then have "parent_get (UnionFind_new es) x = x" by (auto simp: parent_get_new)
  then have "root_of (parent_get (UnionFind_new es)) x x" by (rule root_of.root)
  with True show ?thesis by auto
next
  case False
  have "root_of (parent_get (UnionFind_new es)) Undefined Undefined"
    by (rule root_of.root) (auto simp: parent_get_new)
  then have "root_of (parent_get (UnionFind_new es)) (parent_get (UnionFind_new es) x) Undefined"
    using False by (simp add: parent_get_new)
  moreover have "parent_get (UnionFind_new es) x \<noteq> x" using False by (auto simp: parent_get_new)
  ultimately have "root_of (parent_get (UnionFind_new es)) x Undefined"
    by (rule root_of.step[rotated])
  with False show ?thesis by simp
qed

lemma new_chains_end: "chains_end (UnionFind_new es)"
  unfolding chains_end_def using new_roots by blast

text \<open>The invariant of every state: chains end; classes only grow.\<close>

lemma apply_uf_op_classes:
  assumes "chains_end u"
  shows "\<exists>u'. apply_uf_op u c = Some u' \<and> chains_end u' \<and>
           (\<forall>x y. same_class u x y \<longrightarrow> same_class u' x y)"
proof (cases c)
  case (Find x)
  from find_classes[OF assms, of x] show ?thesis
    unfolding Find same_class_def by fastforce
next
  case (Union x y)
  from union_classes[OF assms, of x y] show ?thesis
    unfolding Union by fastforce
next
  case (Connected x y)
  from connected_classes[OF assms, of x y] show ?thesis
    unfolding Connected same_class_def by fastforce
qed

lemma apply_uf_ops_classes:
  assumes "chains_end u"
  shows "\<exists>u'. apply_uf_ops u cs = Some u' \<and> chains_end u' \<and>
           (\<forall>x y. same_class u x y \<longrightarrow> same_class u' x y)"
  using assms
proof (induction cs arbitrary: u)
  case Nil
  then show ?case by simp
next
  case (Cons c cs)
  from apply_uf_op_classes[OF Cons.prems, of c] obtain u1 where
    1: "apply_uf_op u c = Some u1" "chains_end u1" "\<forall>x y. same_class u x y \<longrightarrow> same_class u1 x y"
    by blast
  from Cons.IH[OF 1(2)] obtain u2 where
    2: "apply_uf_ops u1 cs = Some u2" "chains_end u2" "\<forall>x y. same_class u1 x y \<longrightarrow> same_class u2 x y"
    by blast
  from 1 2 show ?case by auto
qed

lemma find_value_root:
  "root_of (parent_get u) x r \<Longrightarrow> find_value u x = Some r"
  using find_root[of u x r] by (auto simp: find_value_def)

lemma connected_value_class:
  "chains_end u \<Longrightarrow> connected_value u x y = Some (same_class u x y)"
  using connected_classes[of u x y] by (auto simp: connected_value_def)

lemma new_undefined_apart: "undefined_apart es (UnionFind_new es)"
proof -
  have "\<not> same_class (UnionFind_new es) (Val e) Undefined" if "e \<in> set es" for e
  proof
    assume "same_class (UnionFind_new es) (Val e) Undefined"
    then obtain r where "root_of (parent_get (UnionFind_new es)) (Val e) r"
      "root_of (parent_get (UnionFind_new es)) Undefined r" by (auto simp: same_class_def)
    with new_roots[of es "Val e"] new_roots[of es Undefined] that show False
      by (auto dest: root_of_unique)
  qed
  moreover have "root_of (parent_get (UnionFind_new es)) x Undefined" if "x \<notin> Val ` set es" for x
    using new_roots[of es x] that by simp
  ultimately show ?thesis by (simp add: undefined_apart_def new_chains_end)
qed

lemma undefined_apart_step:
  assumes inv: "undefined_apart es u" and mem: "set (uf_op_args c) \<subseteq> Val ` set es"
    and ap: "apply_uf_op u c = Some u'"
  shows "undefined_apart es u'"
proof -
  from inv have ce: "chains_end u" by (simp add: undefined_apart_def)
  have keep: "undefined_apart es u'"
    if "chains_end u'" "\<forall>y r'. root_of (parent_get u') y r' = root_of (parent_get u) y r'"
    using that inv by (simp add: undefined_apart_def same_class_def)
  show ?thesis
  proof (cases c)
    case (Find x)
    with find_classes[OF ce, of x] ap keep show ?thesis by auto
  next
    case (Connected x y)
    with connected_classes[OF ce, of x y] ap keep show ?thesis by auto
  next
    case (Union x y)
    with mem obtain ex ey where xy: "x = Val ex" "y = Val ey" "ex \<in> set es" "ey \<in> set es" by auto
    from ap Union have un: "UnionFind_union u x y = Some u'" by simp
    from union_classes[OF ce, of x y] un have ce': "chains_end u'"
      and sc: "\<And>a b. same_class u' a b =
              (same_class u a b \<or> (same_class u a x \<and> same_class u y b) \<or>
               (same_class u a y \<and> same_class u x b))" by auto
    have nx: "\<not> same_class u x Undefined" and ny: "\<not> same_class u y Undefined"
      using inv xy by (auto simp: undefined_apart_def)
    have "\<not> same_class u' (Val e) Undefined" if "e \<in> set es" for e
      using that inv nx ny by (auto simp: sc undefined_apart_def dest: same_class_sym)
    moreover have "root_of (parent_get u') z Undefined" if "z \<notin> Val ` set es" for z
    proof -
      from that inv have z: "root_of (parent_get u) z Undefined" by (simp add: undefined_apart_def)
      from inv have "root_of (parent_get u) Undefined Undefined"
        by (auto simp: undefined_apart_def)
      with z have zu: "same_class u z Undefined" by (auto simp: same_class_def)
      have "\<not> same_class u z x" "\<not> same_class u z y"
        using zu nx ny by (meson same_class_sym same_class_trans)+
      from union_other_root[OF ce z this un] show ?thesis .
    qed
    ultimately show ?thesis using ce' by (simp add: undefined_apart_def)
  qed
qed

lemma undefined_apart_run:
  "undefined_apart es u \<Longrightarrow> members_only es cs \<Longrightarrow> apply_uf_ops u cs = Some u' \<Longrightarrow>
   undefined_apart es u'"
proof (induction cs arbitrary: u)
  case Nil
  then show ?case by simp
next
  case (Cons c cs)
  from Cons.prems(3) obtain u1 where u1: "apply_uf_op u c = Some u1" "apply_uf_ops u1 cs = Some u'"
    by (auto split: bind_splits)
  from Cons.prems(2) have m: "set (uf_op_args c) \<subseteq> Val ` set es" "members_only es cs"
    by (auto simp: members_only_def list_all_iff)
  from undefined_apart_step[OF Cons.prems(1) m(1) u1(1)] have "undefined_apart es u1" .
  from Cons.IH[OF this m(2) u1(2)] show ?case .
qed

lemma reachable_chains_end:
  "apply_uf_ops (UnionFind_new es) cs = Some u \<Longrightarrow> chains_end u"
  using apply_uf_ops_classes[OF new_chains_end, of es cs] by auto

section \<open>Lemmas about breadth-first search\<close>

lemma bfs_visit_fold_result:
  assumes "u \<in> set (bfs_visited st)"
  shows "\<exists>new. bfs_queue (foldl (bfs_visit u) st ns) = bfs_queue st @ new \<and> distinct new \<and>
           set new = set ns - set (bfs_visited st) \<and>
           set (bfs_visited (foldl (bfs_visit u) st ns)) = set (bfs_visited st) \<union> set ns \<and>
           (\<forall>v. Map_get (bfs_distance (foldl (bfs_visit u) st ns)) v =
                 (if v \<in> set ns - set (bfs_visited st)
                  then Some (next_distance (bfs_distance st) u)
                  else Map_get (bfs_distance st) v))"
  using assms
proof (induction ns arbitrary: st)
  case Nil
  then show ?case by simp
next
  case (Cons n ns)
  show ?case
  proof (cases "n \<in> set (bfs_visited st)")
    case True
    then have same: "bfs_visit u st n = st" by (simp add: bfs_visit_def)
    from Cons.IH[OF Cons.prems] obtain new where
      "bfs_queue (foldl (bfs_visit u) st ns) = bfs_queue st @ new" "distinct new"
      "set new = set ns - set (bfs_visited st)"
      "set (bfs_visited (foldl (bfs_visit u) st ns)) = set (bfs_visited st) \<union> set ns"
      "\<forall>v. Map_get (bfs_distance (foldl (bfs_visit u) st ns)) v =
                 (if v \<in> set ns - set (bfs_visited st)
                  then Some (next_distance (bfs_distance st) u)
                  else Map_get (bfs_distance st) v)" by blast
    with True same show ?thesis
      by (intro exI[of _ new]) auto
  next
    case False
    let ?st2 = "bfs_visit u st n"
    have v2: "set (bfs_visited ?st2) = insert n (set (bfs_visited st))"
      and q2: "bfs_queue ?st2 = bfs_queue st @ [n]"
      and d2: "\<And>v. Map_get (bfs_distance ?st2) v =
                 (if v = n then Some (next_distance (bfs_distance st) u)
                  else Map_get (bfs_distance st) v)"
      using False by (auto simp: bfs_visit_def Set_add_def Map_get_set)
    from False Cons.prems have un: "u \<noteq> n" by auto
    then have nd: "next_distance (bfs_distance ?st2) u = next_distance (bfs_distance st) u"
      by (simp add: next_distance_def d2)
    have u2: "u \<in> set (bfs_visited ?st2)" using Cons.prems v2 by simp
    from Cons.IH[OF u2] obtain new where new:
      "bfs_queue (foldl (bfs_visit u) ?st2 ns) = bfs_queue ?st2 @ new" "distinct new"
      "set new = set ns - set (bfs_visited ?st2)"
      "set (bfs_visited (foldl (bfs_visit u) ?st2 ns)) = set (bfs_visited ?st2) \<union> set ns"
      "\<forall>v. Map_get (bfs_distance (foldl (bfs_visit u) ?st2 ns)) v =
                 (if v \<in> set ns - set (bfs_visited ?st2)
                  then Some (next_distance (bfs_distance ?st2) u)
                  else Map_get (bfs_distance ?st2) v)" by blast
    show ?thesis
    proof (intro exI[of _ "n # new"] conjI allI)
      show "bfs_queue (foldl (bfs_visit u) st (n # ns)) = bfs_queue st @ n # new"
        using new(1) q2 by simp
      show "distinct (n # new)" using new(2,3) v2 by simp
      show "set (n # new) = set (n # ns) - set (bfs_visited st)"
        using new(3) v2 False by auto
      show "set (bfs_visited (foldl (bfs_visit u) st (n # ns))) = set (bfs_visited st) \<union> set (n # ns)"
        using new(4) v2 by auto
      show "Map_get (bfs_distance (foldl (bfs_visit u) st (n # ns))) v =
                 (if v \<in> set (n # ns) - set (bfs_visited st)
                  then Some (next_distance (bfs_distance st) u)
                  else Map_get (bfs_distance st) v)" for v
        using new(5) v2 d2 nd False by auto
    qed
  qed
qed

lemma bfs_visit_fold_other:
  "bfs_visitOrder (foldl (bfs_visit u) st ns) = bfs_visitOrder st \<and>
   bfs_found (foldl (bfs_visit u) st ns) = bfs_found st"
  by (induction ns arbitrary: st) (auto simp: bfs_visit_def)

lemma sorted_map_const: "sorted (map (\<lambda>x. (c::nat)) xs)"
  by (induction xs) auto

lemma bfs_inv_step:
  assumes inv: "bfs_inv g s st" and q: "bfs_queue st = u # rest"
  shows "bfs_inv g s (foldl (bfs_visit u)
           (st\<lparr>bfs_queue := rest, bfs_visitOrder := bfs_visitOrder st @ [u]\<rparr>)
           (sorted_neighbors lc g u))"
proof -
  let ?st1 = "st\<lparr>bfs_queue := rest, bfs_visitOrder := bfs_visitOrder st @ [u]\<rparr>"
  define st' where "st' = foldl (bfs_visit u) ?st1 (sorted_neighbors lc g u)"
  let ?V = "set (bfs_visited st)"
  let ?N = "set (getNeighbors g u)"
  have N: "set (sorted_neighbors lc g u) = ?N" by (simp add: sorted_neighbors_def set_js_sort)
  from inv have a: "\<And>v. (Map_get (bfs_distance st) v \<noteq> None) = (v \<in> ?V)"
    and b: "\<And>v d. Map_get (bfs_distance st) v = Some d \<Longrightarrow> \<exists>n. d = Num (int n) \<and> walk g s n v"
    and c: "set (bfs_queue st) \<subseteq> ?V"
    and i: "distinct (bfs_queue st)"
    and d1: "sorted (map (dist_of st) (bfs_queue st))"
    and d2: "\<And>x. x \<in> set (bfs_queue st) \<Longrightarrow> dist_of st x \<le> dist_of st (hd (bfs_queue st)) + 1"
    and e: "\<And>p x. p \<in> ?V \<Longrightarrow> p \<notin> set (bfs_queue st) \<Longrightarrow> x \<in> set (bfs_queue st)
              \<Longrightarrow> dist_of st p \<le> dist_of st x"
    and f: "\<And>p w. p \<in> ?V \<Longrightarrow> p \<notin> set (bfs_queue st) \<Longrightarrow> w \<in> set (getNeighbors g p)
              \<Longrightarrow> w \<in> ?V \<and> dist_of st w \<le> dist_of st p + 1"
    and gs: "s \<in> ?V" "Map_get (bfs_distance st) s = Some (Num 0)"
    unfolding bfs_inv_def by auto
  from q c have uV: "u \<in> ?V" by auto
  from q i have urest: "u \<notin> set rest" "distinct rest" by auto
  from q c have restV: "set rest \<subseteq> ?V" by auto
  from uV a[of u] obtain du where du: "Map_get (bfs_distance st) u = Some du" by auto
  from b[OF du] obtain k where k: "du = Num (int k)" "walk g s k u" by auto
  have ku: "dist_of st u = k" using du k by (simp add: dist_of_def)
  have nd: "next_distance (bfs_distance st) u = Num (int (Suc k))"
    using du k by (simp add: next_distance_def)
  have "u \<in> set (bfs_visited ?st1)" using uV by simp
  from bfs_visit_fold_result[OF this, of "sorted_neighbors lc g u"] obtain new where
    Q': "bfs_queue st' = rest @ new" and dn: "distinct new" and sn: "set new = ?N - ?V"
    and V': "set (bfs_visited st') = ?V \<union> ?N"
    and D': "\<And>v. Map_get (bfs_distance st') v =
               (if v \<in> ?N - ?V then Some (Num (int (Suc k))) else Map_get (bfs_distance st) v)"
    unfolding N st'_def by (auto simp: nd)
  have dist': "\<And>v. dist_of st' v = (if v \<in> ?N - ?V then Suc k else dist_of st v)"
    by (auto simp: dist_of_def D' nat_add_distrib)
  have restd: "\<And>x. x \<in> set rest \<Longrightarrow> dist_of st' x = dist_of st x"
    using restV by (auto simp: dist')
  have newd: "\<And>x. x \<in> set new \<Longrightarrow> dist_of st' x = Suc k"
    using sn by (auto simp: dist')
  have rest_ge: "\<And>x. x \<in> set rest \<Longrightarrow> k \<le> dist_of st x"
    using d1 q ku by auto
  have rest_le: "\<And>x. x \<in> set rest \<Longrightarrow> dist_of st x \<le> Suc k"
    using d2 q ku by fastforce
  have sorted_rest: "sorted (map (dist_of st) rest)" using d1 q by simp
  text \<open>The conjuncts of the invariant for the new state.\<close>
  have A: "\<forall>v. (Map_get (bfs_distance st') v \<noteq> None) = (v \<in> set (bfs_visited st'))"
    using a by (auto simp: D' V')
  have B: "\<forall>v d. Map_get (bfs_distance st') v = Some d \<longrightarrow> (\<exists>n. d = Num (int n) \<and> walk g s n v)"
  proof (intro allI impI)
    fix v d assume vd: "Map_get (bfs_distance st') v = Some d"
    show "\<exists>n. d = Num (int n) \<and> walk g s n v"
    proof (cases "v \<in> ?N - ?V")
      case True
      then have "walk g s (Suc k) v" using k(2) by (auto intro: walk_step)
      moreover from True vd have "d = Num (int (Suc k))" by (simp add: D')
      ultimately show ?thesis by blast
    next
      case False
      with vd have "Map_get (bfs_distance st) v = Some d" by (auto simp: D' split: if_splits)
      then show ?thesis by (rule b)
    qed
  qed
  have C: "set (bfs_queue st') \<subseteq> set (bfs_visited st')"
    using restV sn by (auto simp: Q' V')
  have I: "distinct (bfs_queue st')"
    using urest dn sn restV by (auto simp: Q')
  have m1: "map (dist_of st') rest = map (dist_of st) rest"
    using restd by (intro map_cong) simp_all
  have m2: "map (dist_of st') new = map (\<lambda>x. Suc k) new"
    using newd by (intro map_cong) simp_all
  have "sorted (map (dist_of st) rest @ map (\<lambda>x. Suc k) new)"
    using sorted_rest rest_le by (auto simp: sorted_append sorted_map_const)
  then have D1: "sorted (map (dist_of st') (bfs_queue st'))"
    unfolding Q' map_append m1 m2 .
  have D2: "\<forall>x \<in> set (bfs_queue st'). dist_of st' x \<le> dist_of st' (hd (bfs_queue st')) + 1"
  proof (cases rest)
    case Nil
    then show ?thesis using newd by (cases new) (auto simp: Q')
  next
    case (Cons r rs)
    then have "hd (bfs_queue st') = r" "r \<in> set rest" by (simp_all add: Q')
    then have "k \<le> dist_of st' (hd (bfs_queue st'))" using rest_ge restd by simp
    moreover have "\<forall>x \<in> set (rest @ new). dist_of st' x \<le> Suc k"
      using rest_le restd newd by auto
    ultimately show ?thesis unfolding Q' by fastforce
  qed
  have proc: "\<And>p. p \<in> set (bfs_visited st') \<Longrightarrow> p \<notin> set (bfs_queue st') \<Longrightarrow>
              p \<in> ?V \<and> (p = u \<or> p \<notin> set (bfs_queue st))"
    using sn q by (auto simp: V' Q')
  have pd: "\<And>p. p \<in> ?V \<Longrightarrow> dist_of st' p = dist_of st p" by (simp add: dist')
  have pk: "\<And>p. p \<in> ?V \<Longrightarrow> p = u \<or> p \<notin> set (bfs_queue st) \<Longrightarrow> dist_of st p \<le> k"
    using e[of _ u] q ku by auto
  have E: "\<forall>p \<in> set (bfs_visited st') - set (bfs_queue st'). \<forall>x \<in> set (bfs_queue st').
              dist_of st' p \<le> dist_of st' x"
  proof (intro ballI)
    fix p x assume p: "p \<in> set (bfs_visited st') - set (bfs_queue st')"
      and x: "x \<in> set (bfs_queue st')"
    from p proc have pp: "p \<in> ?V" "p = u \<or> p \<notin> set (bfs_queue st)" by auto
    then have "dist_of st' p \<le> k" using pd pk by simp
    moreover have "k \<le> dist_of st' x"
      using x rest_ge restd newd unfolding Q' by fastforce
    ultimately show "dist_of st' p \<le> dist_of st' x" by simp
  qed
  have F: "\<forall>p \<in> set (bfs_visited st') - set (bfs_queue st'). \<forall>w \<in> set (getNeighbors g p).
              w \<in> set (bfs_visited st') \<and> dist_of st' w \<le> dist_of st' p + 1"
  proof (intro ballI)
    fix p w assume p: "p \<in> set (bfs_visited st') - set (bfs_queue st')"
      and w: "w \<in> set (getNeighbors g p)"
    from p proc have pp: "p \<in> ?V" "p = u \<or> p \<notin> set (bfs_queue st)" by auto
    show "w \<in> set (bfs_visited st') \<and> dist_of st' w \<le> dist_of st' p + 1"
    proof (cases "p = u")
      case False
      with pp have "p \<notin> set (bfs_queue st)" by simp
      from f[OF pp(1) this w] show ?thesis using pd pp(1) by (simp add: V')
    next
      case True
      with w have wN: "w \<in> ?N" by simp
      have "dist_of st' w \<le> Suc k"
      proof (cases "w \<in> ?V")
        case False
        with wN show ?thesis by (simp add: dist')
      next
        case wV: True
        show ?thesis
        proof (cases "w \<in> set (bfs_queue st)")
          case True
          from d2[OF True] q ku wV show ?thesis by (simp add: dist')
        next
          case False
          from pk[OF wV] False wV show ?thesis by (simp add: dist')
        qed
      qed
      then show ?thesis using wN True ku uV by (simp add: V' pd)
    qed
  qed
  have G: "s \<in> set (bfs_visited st') \<and> Map_get (bfs_distance st') s = Some (Num 0)"
    using gs by (simp add: V' D')
  have "bfs_inv g s st'"
    unfolding bfs_inv_def using A B C I D1 D2 E F G by blast
  then show ?thesis by (simp add: st'_def)
qed

lemma bfs_loop_inv:
  "bfs_inv g s st \<Longrightarrow>
   bfs_inv g s (bfs_loop lc g None st) \<and> bfs_queue (bfs_loop lc g None st) = []"
proof (induction lc g "None :: string option" st rule: bfs_loop.induct)
  case (1 lc g st)
  show ?case
  proof (cases "bfs_queue st")
    case Nil
    with "1.prems" show ?thesis by (simp add: bfs_loop.simps)
  next
    case (Cons u rest)
    let ?st1 = "st\<lparr>bfs_queue := rest, bfs_visitOrder := bfs_visitOrder st @ [u]\<rparr>"
    let ?st' = "foldl (bfs_visit u) ?st1 (sorted_neighbors lc g u)"
    have "bfs_inv g s ?st'" using "1.prems" Cons by (rule bfs_inv_step)
    then have "bfs_inv g s (bfs_loop lc g None ?st') \<and> bfs_queue (bfs_loop lc g None ?st') = []"
      using Cons by (intro "1.hyps"[of u rest ?st1]) simp_all
    moreover have "bfs_loop lc g None st = bfs_loop lc g None ?st'"
      using Cons by (subst bfs_loop.simps) (simp add: Let_def)
    ultimately show ?thesis by simp
  qed
qed

lemma bfs_inv_initial:
  "bfs_inv g s \<lparr>bfs_visited = [s], bfs_queue = [s], bfs_visitOrder = [],
                bfs_parent = [(s, None)], bfs_distance = [(s, Num 0)], bfs_found = False\<rparr>"
  unfolding bfs_inv_def
  by (auto simp: Map_get_def dist_of_def intro: walk_start exI[of _ 0] split: if_splits)

lemma bfs_inv_final:
  assumes "bfs_inv g s st" "bfs_queue st = []" "walk g s m v"
  shows "v \<in> set (bfs_visited st) \<and> dist_of st v \<le> m"
  using assms(3)
proof (induction rule: walk.induct)
  case walk_start
  from assms(1) show ?case by (simp add: bfs_inv_def dist_of_def)
next
  case (walk_step n u v)
  from assms(1,2) walk_step.IH walk_step.hyps(2)
  have "v \<in> set (bfs_visited st) \<and> dist_of st v \<le> dist_of st u + 1"
    unfolding bfs_inv_def by auto
  with walk_step.IH show ?case by simp
qed

lemma bfs_result_no_target:
  "bfs lc g s None =
     Some (Inr \<lparr>b_algorithm = ''BFS'', b_startNode = s, b_targetNode = None,
        b_visitOrder = bfs_visitOrder (bfs_loop lc g None
            \<lparr>bfs_visited = [s], bfs_queue = [s], bfs_visitOrder = [],
             bfs_parent = [(s, None)], bfs_distance = [(s, Num 0)], bfs_found = False\<rparr>),
        b_path = bfs_visitOrder (bfs_loop lc g None
            \<lparr>bfs_visited = [s], bfs_queue = [s], bfs_visitOrder = [],
             bfs_parent = [(s, None)], bfs_distance = [(s, Num 0)], bfs_found = False\<rparr>),
        b_found = True, b_distance = Some (Num (- 1)),
        b_distances = bfs_distance (bfs_loop lc g None
            \<lparr>bfs_visited = [s], bfs_queue = [s], bfs_visitOrder = [],
             bfs_parent = [(s, None)], bfs_distance = [(s, Num 0)], bfs_found = False\<rparr>),
        b_statistics = \<lparr>bs_nodesVisited = length (bfs_visited (bfs_loop lc g None
            \<lparr>bfs_visited = [s], bfs_queue = [s], bfs_visitOrder = [],
             bfs_parent = [(s, None)], bfs_distance = [(s, Num 0)], bfs_found = False\<rparr>)),
          bs_totalNodes = length (nodes g),
          bs_pathLength = length (bfs_visitOrder (bfs_loop lc g None
            \<lparr>bfs_visited = [s], bfs_queue = [s], bfs_visitOrder = [],
             bfs_parent = [(s, None)], bfs_distance = [(s, Num 0)], bfs_found = False\<rparr>))\<rparr>\<rparr>)"
  by (simp add: bfs_def Let_def)

section \<open>Lemmas about spanning trees, Prim and Kruskal\<close>

text \<open>Integers up to \<open>2^53\<close> in magnitude are doubles, and their sums are exact.\<close>

lemma binary_digits_le: "(binary_digits m \<le> k) = (m < 2 ^ k)"
proof (induction k arbitrary: m)
  case 0
  show ?case by (subst binary_digits.simps) auto
next
  case (Suc k)
  have "(binary_digits m \<le> Suc k) = (m \<le> 0 \<or> binary_digits (m div 2) \<le> k)"
    by (subst binary_digits.simps) simp
  also have "\<dots> = (m \<le> 0 \<or> m div 2 < 2 ^ k)" by (simp add: Suc.IH)
  also have "\<dots> = (m < 2 ^ Suc k)"
  proof -
    have "(0::int) < 2 ^ k" by simp
    moreover have "(m \<le> 0 \<or> m div 2 < y) = (m < 2 * y)" if "0 < y" for y :: int
      using that by presburger
    ultimately show ?thesis by simp
  qed
  finally show ?case .
qed

lemma round_to_double_exact:
  assumes "m \<le> 2 ^ 53"
  shows "round_to_double m = m"
proof (cases "m < 2 ^ 53")
  case True
  then have "binary_digits m - 53 = 0" using binary_digits_le[of m 53] by simp
  then show ?thesis by (simp add: round_to_double_def)
next
  case False
  with assms have m: "m = 2 ^ 53" by simp
  have "binary_digits m \<le> 54" using binary_digits_le[of m 54] m by simp
  moreover have "\<not> binary_digits m \<le> 53" using binary_digits_le[of m 53] m by simp
  ultimately have "binary_digits m - 53 = 1" by simp
  then show ?thesis using m by (simp add: round_to_double_def)
qed

lemma double_of_int_exact:
  assumes "\<bar>x\<bar> \<le> 2 ^ 53"
  shows "double_of_int x = Num x"
proof -
  from assms have r: "round_to_double \<bar>x\<bar> = \<bar>x\<bar>" by (rule round_to_double_exact)
  have "(2::int) ^ 53 < 2 ^ 1024" by simp
  with assms have "\<not> (2::int) ^ 1024 \<le> \<bar>x\<bar>" by linarith
  with r show ?thesis by (simp add: double_of_int_def Let_def)
qed

lemma double_add_exact: "\<bar>a + b\<bar> \<le> 2 ^ 53 \<Longrightarrow> double_add (Num a) (Num b) = Num (a + b)"
  by (simp add: double_of_int_exact)

lemma sum_set_le_sum_list:
  fixes f :: "'a \<Rightarrow> int"
  assumes "\<And>x. 0 \<le> f x"
  shows "sum f (set xs) \<le> sum_list (map f xs)"
proof (induction xs)
  case Nil
  show ?case by simp
next
  case (Cons x xs)
  have "sum f (set (x # xs)) \<le> f x + sum f (set xs)"
    using assms by (cases "x \<in> set xs") (simp_all add: insert_absorb)
  with Cons show ?case by simp
qed

lemma weight_sum_bound:
  assumes "exact_sums g" "F \<subseteq> edge_set g"
  shows "\<bar>weight_sum F\<bar> \<le> 2 ^ 53"
proof -
  have "\<bar>weight_sum F\<bar> \<le> (\<Sum>e\<in>F. \<bar>weight e\<bar>)" unfolding weight_sum_def by (rule sum_abs)
  also have "\<dots> \<le> (\<Sum>e\<in>edge_set g. \<bar>weight e\<bar>)"
    using assms(2) by (intro sum_mono2) (simp_all add: edge_set_def)
  also have "\<dots> \<le> sum_list (map (\<lambda>e. \<bar>weight e\<bar>) (Map_values (edges g)))"
    unfolding edge_set_def by (rule sum_set_le_sum_list) simp
  also have "\<dots> \<le> 2 ^ 53" using assms(1) by (simp add: exact_sums_def getEdges_def)
  finally show ?thesis .
qed

lemma joins_sym: "joins e u v \<Longrightarrow> joins e v u"
  by (auto simp: joins_def)

lemma joins_same: "joins e u v \<Longrightarrow> joins e x y \<Longrightarrow> (x = u \<and> y = v) \<or> (x = v \<and> y = u)"
  by (auto simp: joins_def)

lemma adj_of_sym: "sym (adj_of T)"
  by (auto simp: adj_of_def sym_def intro: joins_sym)

lemma linked_sym: "(u, v) \<in> (adj_of T)\<^sup>* \<Longrightarrow> (v, u) \<in> (adj_of T)\<^sup>*"
  using sym_rtrancl[OF adj_of_sym, of T] by (auto dest: symD)

lemma adj_of_mono: "T \<subseteq> T' \<Longrightarrow> adj_of T \<subseteq> adj_of T'"
  by (auto simp: adj_of_def)

lemma linked_mono: "T \<subseteq> T' \<Longrightarrow> (u, v) \<in> (adj_of T)\<^sup>* \<Longrightarrow> (u, v) \<in> (adj_of T')\<^sup>*"
  using rtrancl_mono[OF adj_of_mono] by blast

text \<open>A walk either avoids an edge, or comes by a given endpoint of it.\<close>

lemma walk_avoids_or_visits:
  assumes "(v, b) \<in> adj_of T ^^ k" and "joins e1 u v0"
  shows "(v, b) \<in> (adj_of (T - {e1}))\<^sup>* \<or> (\<exists>j \<le> k. (u, b) \<in> adj_of T ^^ j)"
  using assms(1)
proof (induction k arbitrary: v)
  case 0
  then show ?case by simp
next
  case (Suc k)
  from relpow_Suc_D2[OF Suc.prems] obtain z where
    vz: "(v, z) \<in> adj_of T" and zb: "(z, b) \<in> adj_of T ^^ k" by blast
  from Suc.IH[OF zb] consider (avoid) "(z, b) \<in> (adj_of (T - {e1}))\<^sup>*"
    | (visit) j where "j \<le> k" "(u, b) \<in> adj_of T ^^ j" by blast
  then show ?case
  proof cases
    case visit
    then have "j \<le> Suc k \<and> (u, b) \<in> adj_of T ^^ j" by simp
    then show ?thesis by blast
  next
    case avoid
    from vz obtain e where e: "e \<in> T" "joins e v z" by (auto simp: adj_of_def)
    show ?thesis
    proof (cases "e = e1")
      case False
      with e have "(v, z) \<in> adj_of (T - {e1})" by (auto simp: adj_of_def)
      with avoid show ?thesis by (auto intro: converse_rtrancl_into_rtrancl)
    next
      case True
      with e assms(2) have "v = u \<or> z = u" by (auto dest: joins_same)
      then show ?thesis
      proof
        assume "v = u"
        with Suc.prems have "Suc k \<le> Suc k \<and> (u, b) \<in> adj_of T ^^ Suc k" by simp
        then show ?thesis by blast
      next
        assume "z = u"
        with zb have "k \<le> Suc k \<and> (u, b) \<in> adj_of T ^^ k" by simp
        then show ?thesis by blast
      qed
    qed
  qed
qed

text \<open>
  On the way from inside a set of nodes to outside it there is an edge leaving the set whose
  removal still leaves its inner end linked to the start, and its outer end to the goal.
\<close>

lemma crossing_edge_on_path:
  assumes "(u, b) \<in> adj_of T ^^ n" "u \<in> S" "b \<notin> S"
  shows "\<exists>e' \<in> T. \<exists>x y. joins e' x y \<and> x \<in> S \<and> y \<notin> S \<and>
           (u, x) \<in> (adj_of (T - {e'}))\<^sup>* \<and> (y, b) \<in> (adj_of (T - {e'}))\<^sup>*"
  using assms
proof (induction n arbitrary: u rule: less_induct)
  case (less n)
  show ?case
  proof (cases n)
    case 0
    with less.prems show ?thesis by simp
  next
    case (Suc k)
    with less.prems have "(u, b) \<in> adj_of T ^^ Suc k" by simp
    from relpow_Suc_D2[OF this] obtain v where
      uv: "(u, v) \<in> adj_of T" and vb: "(v, b) \<in> adj_of T ^^ k" by blast
    from uv obtain e1 where e1: "e1 \<in> T" "joins e1 u v" by (auto simp: adj_of_def)
    show ?thesis
    proof (cases "v \<in> S")
      case True
      from less.IH[OF _ vb True less.prems(3)] Suc obtain e' x y where
        e': "e' \<in> T" "joins e' x y" "x \<in> S" "y \<notin> S" "(v, x) \<in> (adj_of (T - {e'}))\<^sup>*"
        "(y, b) \<in> (adj_of (T - {e'}))\<^sup>*" by auto
      have "e1 \<noteq> e'"
      proof
        assume "e1 = e'"
        with e1(2) e'(2) have "(x = u \<and> y = v) \<or> (x = v \<and> y = u)" by (auto dest: joins_same)
        with True less.prems(2) e'(4) show False by auto
      qed
      with e1 have "(u, v) \<in> adj_of (T - {e'})" by (auto simp: adj_of_def)
      with e'(5) have "(u, x) \<in> (adj_of (T - {e'}))\<^sup>*"
        by (auto intro: converse_rtrancl_into_rtrancl)
      with e' show ?thesis by blast
    next
      case False
      from walk_avoids_or_visits[OF vb e1(2)] consider
        (avoid) "(v, b) \<in> (adj_of (T - {e1}))\<^sup>*"
        | (visit) j where "j \<le> k" "(u, b) \<in> adj_of T ^^ j" by blast
      then show ?thesis
      proof cases
        case avoid
        with e1 False less.prems(2) show ?thesis by blast
      next
        case visit
        from less.IH[OF _ visit(2) less.prems(2,3)] visit(1) Suc show ?thesis by auto
      qed
    qed
  qed
qed

lemma finite_edge_set: "finite (edge_set g)"
  by (simp add: edge_set_def)

text \<open>
  The exchange step: a spanning tree that contains \<open>F\<close> can be turned into one that also
  contains \<open>e\<close>, at no higher weight, when \<open>e\<close> is a lightest edge leaving a set of nodes that
  no edge of \<open>F\<close> leaves.
\<close>

lemma exchange:
  assumes T: "spanning_tree g T" and FT: "F \<subseteq> T" and Fin: "\<forall>f \<in> F. \<not> crossing S f"
    and e: "e \<in> edge_set g" "joins e a b" "a \<in> S" "b \<notin> S" "a \<in> node_set g" "b \<in> node_set g"
    and least: "\<forall>e' \<in> edge_set g. crossing S e' \<longrightarrow> weight e \<le> weight e'"
  shows "\<exists>T'. spanning_tree g T' \<and> insert e F \<subseteq> T' \<and> weight_sum T' \<le> weight_sum T"
proof (cases "e \<in> T")
  case True
  with T FT show ?thesis by (intro exI[of _ T]) auto
next
  case False
  from T have sub: "T \<subseteq> edge_set g" and card: "card T + 1 = card (node_set g)"
    and link: "\<And>u v. u \<in> node_set g \<Longrightarrow> v \<in> node_set g \<Longrightarrow> (u, v) \<in> (adj_of T)\<^sup>*"
    by (auto simp: spanning_tree_def)
  have finT: "finite T" using sub finite_edge_set by (rule finite_subset)
  from link[OF e(5,6)] obtain n where "(a, b) \<in> adj_of T ^^ n"
    by (auto dest: rtrancl_imp_relpow)
  from crossing_edge_on_path[OF this e(3,4)] obtain e' x y where
    e': "e' \<in> T" "joins e' x y" "x \<in> S" "y \<notin> S"
    and ax: "(a, x) \<in> (adj_of (T - {e'}))\<^sup>*" and yb: "(y, b) \<in> (adj_of (T - {e'}))\<^sup>*"
    by blast
  let ?T' = "insert e (T - {e'})"
  have cr: "crossing S e'" using e'(2,3,4) by (auto simp: crossing_def joins_def)
  have sub': "?T' \<subseteq> edge_set g" using sub e(1) by auto
  have card': "card ?T' + 1 = card (node_set g)"
  proof -
    have "card ?T' = Suc (card (T - {e'}))" using finT False by simp
    also have "\<dots> = card T" using finT e'(1) by (rule card_Suc_Diff1)
    finally show ?thesis using card by simp
  qed
  have xy: "(x, y) \<in> (adj_of ?T')\<^sup>*"
  proof -
    have "(x, a) \<in> (adj_of ?T')\<^sup>*"
      using linked_sym[OF ax] by (rule linked_mono[rotated]) auto
    moreover have "(a, b) \<in> adj_of ?T'" using e(2) by (auto simp: adj_of_def)
    moreover have "(b, y) \<in> (adj_of ?T')\<^sup>*"
      using linked_sym[OF yb] by (rule linked_mono[rotated]) auto
    ultimately show ?thesis by (meson rtrancl.rtrancl_into_rtrancl rtrancl_trans)
  qed
  have "adj_of T \<subseteq> (adj_of ?T')\<^sup>*"
  proof
    fix pq assume "pq \<in> adj_of T"
    then obtain p q f where pq: "pq = (p, q)" and f: "f \<in> T" "joins f p q"
      by (auto simp: adj_of_def)
    show "pq \<in> (adj_of ?T')\<^sup>*"
    proof (cases "f = e'")
      case False
      with f have "(p, q) \<in> adj_of ?T'" by (auto simp: adj_of_def)
      with pq show ?thesis by auto
    next
      case True
      with f e'(2) have "(p = x \<and> q = y) \<or> (p = y \<and> q = x)" by (auto dest: joins_same)
      with xy linked_sym[OF xy] pq show ?thesis by auto
    qed
  qed
  then have "(adj_of T)\<^sup>* \<subseteq> (adj_of ?T')\<^sup>*" by (rule rtrancl_subset_rtrancl)
  with link have link': "\<forall>u \<in> node_set g. \<forall>v \<in> node_set g. (u, v) \<in> (adj_of ?T')\<^sup>*" by blast
  have "weight e \<le> weight e'" using least cr e'(1) sub by auto
  moreover have "weight_sum ?T' = weight_sum (T - {e'}) + weight e"
    using finT False by (simp add: weight_sum_def)
  moreover have "weight_sum T = weight_sum (T - {e'}) + weight e'"
    using finT e'(1) by (simp add: weight_sum_def sum.remove)
  ultimately have w: "weight_sum ?T' \<le> weight_sum T" by simp
  have "e' \<notin> F" using Fin cr by auto
  with FT have "insert e F \<subseteq> ?T'" by auto
  with sub' card' link' w show ?thesis
    by (intro exI[of _ ?T']) (simp add: spanning_tree_def)
qed

lemma getNeighbors_foldl_iff:
  "set (foldl (\<lambda>neighbors e.
              if source e = n then Set_add neighbors (target e)
              else if \<not> isDirected g \<and> target e = n then Set_add neighbors (source e)
              else neighbors) acc es) = set acc \<union> {nb. \<exists>e \<in> set es. edge_joins g n nb e}"
proof (induction es arbitrary: acc)
  case Nil
  then show ?case by simp
next
  case (Cons e es)
  let ?acc' = "if source e = n then Set_add acc (target e)
               else if \<not> isDirected g \<and> target e = n then Set_add acc (source e) else acc"
  have "set ?acc' = set acc \<union> {nb. edge_joins g n nb e}"
    by (auto simp: Set_add_def edge_joins_def)
  with Cons.IH[of ?acc'] show ?case by auto
qed

lemma getNeighbors_iff:
  "nb \<in> set (getNeighbors g n) = (\<exists>e \<in> edge_set g. edge_joins g n nb e)"
  unfolding getNeighbors_def getNeighbors_foldl_iff by (simp add: edge_set_def)

lemma edge_joins_undirected: "\<not> isDirected g \<Longrightarrow> edge_joins g n nb e = joins e n nb"
  by (auto simp: edge_joins_def joins_def)

lemma no_parallel_distinct: "no_parallel es \<Longrightarrow> distinct es"
  by (induction es) (auto simp: joins_def)

lemma no_parallel_find:
  "no_parallel es \<Longrightarrow> e \<in> set es \<Longrightarrow> joins e n nb \<Longrightarrow> find (\<lambda>e. joins e n nb) es = Some e"
proof (induction es)
  case Nil
  then show ?case by simp
next
  case (Cons e0 es)
  show ?case
  proof (cases "e = e0")
    case True
    with Cons.prems show ?thesis by simp
  next
    case False
    with Cons.prems have in_es: "e \<in> set es" by simp
    have "\<not> joins e0 n nb"
    proof
      assume "joins e0 n nb"
      with Cons.prems(3) have "joins e (source e0) (target e0)" by (auto simp: joins_def)
      with Cons.prems(1) in_es show False by auto
    qed
    with Cons in_es show ?thesis by simp
  qed
qed

lemma no_parallel_unique:
  "no_parallel es \<Longrightarrow> e \<in> set es \<Longrightarrow> e' \<in> set es \<Longrightarrow> joins e n nb \<Longrightarrow> joins e' n nb \<Longrightarrow> e = e'"
  using no_parallel_find[of es e n nb] no_parallel_find[of es e' n nb] by simp

lemma getEdgeWeight_undirected:
  assumes "\<not> isDirected g" "no_parallel (Map_values (edges g))" "e \<in> edge_set g" "joins e n nb"
  shows "getEdgeWeight g n nb = Num (weight e)"
    and "find (edge_joins g n nb) (getEdges g) = Some e"
proof -
  have "edge_joins g n nb = (\<lambda>e. joins e n nb)"
    using assms(1) by (auto simp: edge_joins_undirected)
  with no_parallel_find[OF assms(2), of e n nb] assms(3,4)
  show "getEdgeWeight g n nb = Num (weight e)" "find (edge_joins g n nb) (getEdges g) = Some e"
    by (simp_all add: getEdgeWeight_def getEdges_def edge_set_def)
qed

text \<open>The sort: a permutation, and sorted for the comparison by weight.\<close>

lemma distinct_sort_insert: "distinct (sort_insert cmp x ys) = (x \<notin> set ys \<and> distinct ys)"
  by (induction ys) (auto simp: set_sort_insert)

lemma distinct_js_sort_foldl:
  "distinct (foldl (\<lambda>sorted x. sort_insert cmp x sorted) acc xs) = distinct (acc @ xs)"
proof (induction xs arbitrary: acc)
  case Nil
  then show ?case by simp
next
  case (Cons x xs)
  show ?case
    by (simp add: Cons.IH distinct_sort_insert set_sort_insert) blast
qed

lemma distinct_js_sort: "distinct (js_sort cmp xs) = distinct xs"
  by (simp add: js_sort_def distinct_js_sort_foldl)

lemma sorted_sort_insert:
  "sorted (map weight ys) \<Longrightarrow>
   sorted (map weight (sort_insert (\<lambda>a b. weight a - weight b) x ys))"
  by (induction ys) (auto simp: set_sort_insert)

lemma sorted_js_sort_foldl:
  "sorted (map weight acc) \<Longrightarrow>
   sorted (map weight (foldl (\<lambda>sorted x. sort_insert (\<lambda>a b. weight a - weight b) x sorted) acc xs))"
  by (induction xs arbitrary: acc) (auto intro: sorted_sort_insert)

lemma sorted_edges_props:
  "set (sorted_edges g) = edge_set g"
  "distinct (sorted_edges g) = distinct (Map_values (edges g))"
  "sorted (map weight (sorted_edges g))"
proof -
  have id: "map (\<lambda>e. e\<lparr>weight := parseFloat (weight e)\<rparr>) (getEdges g) = Map_values (edges g)"
    by (simp add: parseFloat_def getEdges_def map_idI)
  show "set (sorted_edges g) = edge_set g"
    by (simp add: sorted_edges_def id set_js_sort edge_set_def)
  show "distinct (sorted_edges g) = distinct (Map_values (edges g))"
    by (simp add: sorted_edges_def id distinct_js_sort)
  show "sorted (map weight (sorted_edges g))"
    unfolding sorted_edges_def js_sort_def by (rule sorted_js_sort_foldl) simp
qed

lemma least_insert:
  assumes "\<forall>c \<in> C. snd c \<notin> S \<longrightarrow> (\<forall>e' \<in> E. joins e' (fst c) (snd c) \<longrightarrow> w \<le> weight e')"
    and "\<And>e'. e' \<in> E \<Longrightarrow> joins e' n nb \<Longrightarrow> w \<le> weight e'"
  shows "\<forall>c \<in> insert (n, nb) C. snd c \<notin> S \<longrightarrow>
           (\<forall>e' \<in> E. joins e' (fst c) (snd c) \<longrightarrow> w \<le> weight e')"
proof (intro ballI impI)
  fix c e' assume c: "c \<in> insert (n, nb) C" "snd c \<notin> S"
    and e': "e' \<in> E" "joins e' (fst c) (snd c)"
  show "w \<le> weight e'"
  proof (cases "c = (n, nb)")
    case True
    with e' assms(2) show ?thesis by simp
  next
    case False
    with c have "c \<in> C" by simp
    with assms(1) c(2) e' show ?thesis by blast
  qed
qed

lemma least_weaken:
  assumes "\<forall>c \<in> C. snd c \<notin> S \<longrightarrow> (\<forall>e' \<in> E. joins e' (fst c) (snd c) \<longrightarrow> w \<le> weight e')"
    and "(w' :: int) \<le> w"
  shows "\<forall>c \<in> C. snd c \<notin> S \<longrightarrow> (\<forall>e' \<in> E. joins e' (fst c) (snd c) \<longrightarrow> w' \<le> weight e')"
  using assms by (meson order_trans)

lemma best_for_some:
  assumes "(n, nb) \<in> C" "nb \<notin> S" "e \<in> edge_set g" "joins e n nb"
    and "\<forall>c \<in> C. snd c \<notin> S \<longrightarrow>
           (\<forall>e' \<in> edge_set g. joins e' (fst c) (snd c) \<longrightarrow> weight e \<le> weight e')"
  shows "best_for g S C (Some e, Num (weight e))"
proof -
  from assms(1,2) have ex: "\<exists>c \<in> C. snd c \<notin> S" by force
  have "\<exists>e0 n nb. (n, nb) \<in> C \<and> nb \<notin> S \<and> e0 \<in> edge_set g \<and> joins e0 n nb \<and>
              (Some e, Num (weight e)) = (Some e0, Num (weight e0)) \<and>
              (\<forall>c \<in> C. snd c \<notin> S \<longrightarrow>
                 (\<forall>e' \<in> edge_set g. joins e' (fst c) (snd c) \<longrightarrow> weight e0 \<le> weight e'))"
    using assms by (intro exI[of _ e] exI[of _ n] exI[of _ nb]) simp
  with ex show ?thesis unfolding best_for_def by (simp only: if_True)
qed

lemma best_for_none: "\<forall>c \<in> C. snd c \<in> S \<Longrightarrow> best_for g S C (None, Infinity)"
  unfolding best_for_def by auto

lemma prim_consider_best:
  assumes und: "\<not> isDirected g" and np: "no_parallel (Map_values (edges g))"
    and best: "best_for g (set inMST) C best" and nb: "nb \<in> set (getNeighbors g n)"
  shows "best_for g (set inMST) (insert (n, nb) C) (prim_consider g inMST n best nb)"
proof -
  let ?S = "set inMST"
  from nb und obtain e1 where e1: "e1 \<in> edge_set g" "joins e1 n nb"
    by (auto simp: getNeighbors_iff edge_joins_undirected)
  note gw = getEdgeWeight_undirected[OF und np e1]
  have uniq: "\<And>e'. e' \<in> edge_set g \<Longrightarrow> joins e' n nb \<Longrightarrow> e' = e1"
    using no_parallel_unique[OF np _ _ _ e1(2)] e1(1) by (auto simp: edge_set_def)
  show ?thesis
  proof (cases "nb \<in> ?S")
    case True
    then have pc: "prim_consider g inMST n best nb = best" by (simp add: prim_consider_def)
    have ex: "(\<exists>c \<in> insert (n, nb) C. snd c \<notin> ?S) = (\<exists>c \<in> C. snd c \<notin> ?S)"
      using True by auto
    show ?thesis
    proof (cases "\<exists>c \<in> C. snd c \<notin> ?S")
      case False
      with best have "best = (None, Infinity)" by (simp add: best_for_def)
      moreover have "\<forall>c \<in> insert (n, nb) C. snd c \<in> ?S" using False True by auto
      ultimately show ?thesis unfolding pc by (simp add: best_for_none)
    next
      case some: True
      with best obtain e n0 nb0 where e: "(n0, nb0) \<in> C" "nb0 \<notin> ?S" "e \<in> edge_set g"
        "joins e n0 nb0" "best = (Some e, Num (weight e))"
        and least: "\<forall>c \<in> C. snd c \<notin> ?S \<longrightarrow>
                 (\<forall>e' \<in> edge_set g. joins e' (fst c) (snd c) \<longrightarrow> weight e \<le> weight e')"
        unfolding best_for_def by auto
      have "\<forall>c \<in> insert (n, nb) C. snd c \<notin> ?S \<longrightarrow>
                 (\<forall>e' \<in> edge_set g. joins e' (fst c) (snd c) \<longrightarrow> weight e \<le> weight e')"
        using least True by simp
      moreover have "(n0, nb0) \<in> insert (n, nb) C" using e(1) by simp
      ultimately have "best_for g ?S (insert (n, nb) C) (Some e, Num (weight e))"
        using e(2-4) by (intro best_for_some[of n0 nb0]) simp_all
      then show ?thesis using pc e(5) by simp
    qed
  next
    case False
    show ?thesis
    proof (cases "\<exists>c \<in> C. snd c \<notin> ?S")
      case none: False
      with best have b: "best = (None, Infinity)" by (simp add: best_for_def)
      have pc: "prim_consider g inMST n best nb = (Some e1, Num (weight e1))"
        using False b gw by (simp add: prim_consider_def Let_def)
      have "\<forall>c \<in> C. snd c \<notin> ?S \<longrightarrow>
                 (\<forall>e' \<in> edge_set g. joins e' (fst c) (snd c) \<longrightarrow> weight e1 \<le> weight e')"
        using none by blast
      then have "\<forall>c \<in> insert (n, nb) C. snd c \<notin> ?S \<longrightarrow>
                 (\<forall>e' \<in> edge_set g. joins e' (fst c) (snd c) \<longrightarrow> weight e1 \<le> weight e')"
        by (rule least_insert) (use uniq in auto)
      then have "best_for g ?S (insert (n, nb) C) (Some e1, Num (weight e1))"
        using False e1 by (intro best_for_some[of n nb]) simp_all
      then show ?thesis unfolding pc .
    next
      case some: True
      with best obtain e n0 nb0 where e: "(n0, nb0) \<in> C" "nb0 \<notin> ?S" "e \<in> edge_set g"
        "joins e n0 nb0" "best = (Some e, Num (weight e))"
        and least: "\<forall>c \<in> C. snd c \<notin> ?S \<longrightarrow>
                 (\<forall>e' \<in> edge_set g. joins e' (fst c) (snd c) \<longrightarrow> weight e \<le> weight e')"
        unfolding best_for_def by auto
      have ex: "\<exists>c \<in> insert (n, nb) C. snd c \<notin> ?S" using False by auto
      show ?thesis
      proof (cases "weight e1 < weight e")
        case True
        then have pc: "prim_consider g inMST n best nb = (Some e1, Num (weight e1))"
          using False e(5) gw by (simp add: prim_consider_def Let_def)
        have "\<forall>c \<in> insert (n, nb) C. snd c \<notin> ?S \<longrightarrow>
                 (\<forall>e' \<in> edge_set g. joins e' (fst c) (snd c) \<longrightarrow> weight e1 \<le> weight e')"
          by (rule least_insert[OF least_weaken[OF least]]) (use uniq True in auto)
        then have "best_for g ?S (insert (n, nb) C) (Some e1, Num (weight e1))"
          using False e1 by (intro best_for_some[of n nb]) simp_all
        then show ?thesis unfolding pc .
      next
        case notless: False
        then have pc: "prim_consider g inMST n best nb = (Some e, Num (weight e))"
          using False e(5) gw by (simp add: prim_consider_def Let_def)
        have "\<forall>c \<in> insert (n, nb) C. snd c \<notin> ?S \<longrightarrow>
                 (\<forall>e' \<in> edge_set g. joins e' (fst c) (snd c) \<longrightarrow> weight e \<le> weight e')"
          by (rule least_insert[OF least]) (use uniq notless in auto)
        then have "best_for g ?S (insert (n, nb) C) (Some e, Num (weight e))"
          using e(1-4) by (intro best_for_some[of n0 nb0]) simp_all
        then show ?thesis unfolding pc .
      qed
    qed
  qed
qed

lemma prim_consider_fold_best:
  assumes und: "\<not> isDirected g" and np: "no_parallel (Map_values (edges g))"
  shows "best_for g (set inMST) C best \<Longrightarrow> set nbs \<subseteq> set (getNeighbors g n) \<Longrightarrow>
         best_for g (set inMST) (C \<union> {n} \<times> set nbs) (foldl (prim_consider g inMST n) best nbs)"
proof (induction nbs arbitrary: C best)
  case Nil
  then show ?case by simp
next
  case (Cons nb nbs)
  from Cons.prems have "best_for g (set inMST) (insert (n, nb) C) (prim_consider g inMST n best nb)"
    by (intro prim_consider_best[OF und np]) auto
  from Cons.IH[OF this] Cons.prems(2)
  have "best_for g (set inMST) (insert (n, nb) C \<union> {n} \<times> set nbs)
          (foldl (prim_consider g inMST n) (prim_consider g inMST n best nb) nbs)" by simp
  moreover have "insert (n, nb) C \<union> {n} \<times> set nbs = C \<union> {n} \<times> set (nb # nbs)" by auto
  ultimately show ?case by simp
qed

lemma prim_scan_fold_best:
  assumes und: "\<not> isDirected g" and np: "no_parallel (Map_values (edges g))"
  shows "best_for g (set inMST) C best \<Longrightarrow>
         best_for g (set inMST) (C \<union> {(n, nb). n \<in> set ns \<and> nb \<in> set (getNeighbors g n)})
           (foldl (\<lambda>best n. foldl (prim_consider g inMST n) best (getNeighbors g n)) best ns)"
proof (induction ns arbitrary: C best)
  case Nil
  then show ?case by simp
next
  case (Cons n ns)
  from prim_consider_fold_best[OF und np Cons.prems, of "getNeighbors g n" n]
  have "best_for g (set inMST) (C \<union> {n} \<times> set (getNeighbors g n))
          (foldl (prim_consider g inMST n) best (getNeighbors g n))" by simp
  from Cons.IH[OF this]
  have "best_for g (set inMST)
          (C \<union> {n} \<times> set (getNeighbors g n) \<union> {(n, nb). n \<in> set ns \<and> nb \<in> set (getNeighbors g n)})
          (foldl (\<lambda>best n. foldl (prim_consider g inMST n) best (getNeighbors g n))
             (foldl (prim_consider g inMST n) best (getNeighbors g n)) ns)" .
  moreover have "C \<union> {n} \<times> set (getNeighbors g n) \<union> {(n, nb). n \<in> set ns \<and> nb \<in> set (getNeighbors g n)}
       = C \<union> {(n', nb). n' \<in> set (n # ns) \<and> nb \<in> set (getNeighbors g n')}" by auto
  ultimately show ?case by simp
qed

text \<open>The scan finds a lightest edge leaving the tree, if an edge leaves it at all.\<close>

lemma prim_scan_least:
  assumes und: "\<not> isDirected g" and np: "no_parallel (Map_values (edges g))"
  shows "(if \<exists>e \<in> edge_set g. crossing (set inMST) e
          then \<exists>e n nb. prim_scan g inMST = (Some e, Num (weight e)) \<and> e \<in> edge_set g \<and>
                 n \<in> set inMST \<and> nb \<notin> set inMST \<and> joins e n nb \<and>
                 (\<forall>e' \<in> edge_set g. crossing (set inMST) e' \<longrightarrow> weight e \<le> weight e')
          else fst (prim_scan g inMST) = None)"
proof -
  let ?S = "set inMST"
  let ?C = "{(n, nb). n \<in> ?S \<and> nb \<in> set (getNeighbors g n)}"
  have "best_for g ?S {} (None, Infinity)" by (simp add: best_for_def)
  from prim_scan_fold_best[OF und np this, of inMST]
  have bf: "best_for g ?S ?C (prim_scan g inMST)" by (simp add: prim_scan_def)
  have cross: "crossing ?S e = (\<exists>n nb. n \<in> ?S \<and> nb \<notin> ?S \<and> joins e n nb)" for e
    by (auto simp: crossing_def joins_def)
  have inC: "(n, nb) \<in> ?C" if "e \<in> edge_set g" "joins e n nb" "n \<in> ?S" for e n nb
    using that und by (auto simp: getNeighbors_iff edge_joins_undirected)
  have Cin: "\<exists>e \<in> edge_set g. joins e n nb" if "(n, nb) \<in> ?C" for n nb
    using that und by (auto simp: getNeighbors_iff edge_joins_undirected)
  show ?thesis
  proof (cases "\<exists>e \<in> edge_set g. crossing ?S e")
    case True
    then obtain e0 n0 nb0 where "e0 \<in> edge_set g" "n0 \<in> ?S" "nb0 \<notin> ?S" "joins e0 n0 nb0"
      by (auto simp: cross)
    then have "\<exists>c \<in> ?C. snd c \<notin> ?S" using inC[of e0 n0 nb0] by force
    with bf obtain e n nb where e: "(n, nb) \<in> ?C" "nb \<notin> ?S" "e \<in> edge_set g" "joins e n nb"
      "prim_scan g inMST = (Some e, Num (weight e))"
      and least: "\<forall>c \<in> ?C. snd c \<notin> ?S \<longrightarrow>
                 (\<forall>e' \<in> edge_set g. joins e' (fst c) (snd c) \<longrightarrow> weight e \<le> weight e')"
      unfolding best_for_def by auto
    have "weight e \<le> weight e'" if "e' \<in> edge_set g" "crossing ?S e'" for e'
    proof -
      from that obtain n' nb' where c: "n' \<in> ?S" "nb' \<notin> ?S" "joins e' n' nb'" by (auto simp: cross)
      with inC[OF that(1) c(3) c(1)] least that(1) show ?thesis by force
    qed
    with e True show ?thesis by auto
  next
    case False
    have "\<not> (\<exists>c \<in> ?C. snd c \<notin> ?S)"
    proof
      assume "\<exists>c \<in> ?C. snd c \<notin> ?S"
      then obtain n nb where c: "(n, nb) \<in> ?C" "nb \<notin> ?S" by auto
      from Cin[OF c(1)] obtain e where "e \<in> edge_set g" "joins e n nb" by auto
      with c have "e \<in> edge_set g \<and> crossing ?S e" by (auto simp: cross)
      with False show False by blast
    qed
    with bf False show ?thesis by (simp add: best_for_def)
  qed
qed

lemma edge_endpoints_nodes:
  "edges_reference_nodes g \<Longrightarrow> e \<in> edge_set g \<Longrightarrow> source e \<in> node_set g \<and> target e \<in> node_set g"
  by (auto simp: edges_reference_nodes_def edge_set_def node_set_def Map_has_keys)

lemma prim_inv_step:
  assumes rdy: "mst_ready g" and inv: "prim_inv g s0 st"
    and scan: "prim_scan g (p_inMST st) = (Some e, w)"
  shows "prim_inv g s0
           (st\<lparr>p_mstEdges := p_mstEdges st @ [e],
               p_totalWeight := double_add (p_totalWeight st) w,
               p_inMST := Set_add (p_inMST st) (prim_newNode (p_inMST st) e),
               p_steps := steps\<rparr>)"
proof -
  let ?S = "set (p_inMST st)" and ?F = "set (p_mstEdges st)"
  from rdy have und: "\<not> isDirected g" and np: "no_parallel (Map_values (edges g))"
    and ern: "edges_reference_nodes g" and ex: "exact_sums g" by (auto simp: mst_ready_def)
  from inv have dS: "distinct (p_inMST st)" and SV: "?S \<subseteq> node_set g" and s0: "s0 \<in> ?S"
    and dF: "distinct (p_mstEdges st)" and FE: "?F \<subseteq> edge_set g"
    and Fin: "\<forall>f \<in> ?F. source f \<in> ?S \<and> target f \<in> ?S"
    and len: "length (p_mstEdges st) + 1 = length (p_inMST st)"
    and link: "\<forall>u \<in> ?S. (s0, u) \<in> (adj_of ?F)\<^sup>*"
    and tw: "p_totalWeight st = Num (weight_sum ?F)"
    and ext: "extends_to_lightest g ?F"
    by (auto simp: prim_inv_def)
  from prim_scan_least[OF und np, of "p_inMST st"] scan obtain n nb where
    e: "e \<in> edge_set g" "n \<in> ?S" "nb \<notin> ?S" "joins e n nb" and w: "w = Num (weight e)"
    and least: "\<forall>e' \<in> edge_set g. crossing ?S e' \<longrightarrow> weight e \<le> weight e'"
    by (auto split: if_splits)
  have new: "prim_newNode (p_inMST st) e = nb"
    using e(2,3,4) by (auto simp: prim_newNode_def joins_def)
  have add: "Set_add (p_inMST st) nb = p_inMST st @ [nb]" using e(3) by (simp add: Set_add_def)
  from edge_endpoints_nodes[OF ern e(1)] e(4) have nbV: "nb \<in> node_set g" and nV: "n \<in> node_set g"
    by (auto simp: joins_def)
  have eF: "e \<notin> ?F" using Fin e(3,4) by (auto simp: joins_def)
  have link': "\<forall>u \<in> insert nb ?S. (s0, u) \<in> (adj_of (insert e ?F))\<^sup>*"
  proof
    fix u assume u: "u \<in> insert nb ?S"
    have old: "\<And>v. v \<in> ?S \<Longrightarrow> (s0, v) \<in> (adj_of (insert e ?F))\<^sup>*"
      using link by (auto intro: linked_mono[of ?F])
    show "(s0, u) \<in> (adj_of (insert e ?F))\<^sup>*"
    proof (cases "u = nb")
      case True
      have "(n, nb) \<in> adj_of (insert e ?F)" using e(4) by (auto simp: adj_of_def)
      with old[OF e(2)] True show ?thesis by (auto intro: rtrancl_into_rtrancl)
    next
      case False
      with u old show ?thesis by simp
    qed
  qed
  have ext': "extends_to_lightest g (insert e ?F)"
    unfolding extends_to_lightest_def
  proof (intro allI impI)
    fix T assume "spanning_tree g T"
    with ext obtain T1 where T1: "spanning_tree g T1" "?F \<subseteq> T1" "weight_sum T1 \<le> weight_sum T"
      by (auto simp: extends_to_lightest_def)
    have "\<forall>f \<in> ?F. \<not> crossing ?S f" using Fin by (auto simp: crossing_def)
    from exchange[OF T1(1,2) this e(1) e(4) e(2) e(3) nV nbV least]
    obtain T' where "spanning_tree g T'" "insert e ?F \<subseteq> T'" "weight_sum T' \<le> weight_sum T1"
      by blast
    with T1(3) show "\<exists>T'. spanning_tree g T' \<and> insert e ?F \<subseteq> T' \<and> weight_sum T' \<le> weight_sum T"
      by (intro exI[of _ T']) simp
  qed
  have "insert e ?F \<subseteq> edge_set g" using FE e(1) by simp
  from weight_sum_bound[OF ex this] have "\<bar>weight_sum (insert e ?F)\<bar> \<le> 2 ^ 53" .
  moreover have "weight_sum (insert e ?F) = weight_sum ?F + weight e"
    using eF by (simp add: weight_sum_def)
  ultimately have tw': "double_add (p_totalWeight st) w = Num (weight_sum (insert e ?F))"
    using tw w by (simp add: double_of_int_exact)
  show ?thesis
    unfolding prim_inv_def new add
    using dS SV s0 dF FE Fin len link' tw' ext' e(1,3) eF nbV
    by (simp add: joins_def) (use e(2,4) Fin in \<open>auto simp: joins_def\<close>)
qed

lemma walk_leaves:
  "walk g s k v \<Longrightarrow> s \<in> S \<Longrightarrow> v \<notin> S \<Longrightarrow> \<exists>u \<in> S. \<exists>w \<in> set (getNeighbors g u). w \<notin> S"
  by (induction rule: walk.induct) auto

lemma crossing_edge_exists:
  assumes rdy: "mst_ready g" and S: "S \<subseteq> node_set g" "s0 \<in> S" "v \<in> node_set g" "v \<notin> S"
  shows "\<exists>e \<in> edge_set g. crossing S e"
proof -
  from rdy S have "\<exists>k. walk g s0 k v" by (auto simp: mst_ready_def connected_graph_def)
  then obtain k where "walk g s0 k v" ..
  from walk_leaves[OF this S(2,4)] obtain u w where "u \<in> S" "w \<in> set (getNeighbors g u)" "w \<notin> S"
    by blast
  moreover from rdy have "\<not> isDirected g" by (simp add: mst_ready_def)
  ultimately show ?thesis
    by (auto simp: getNeighbors_iff edge_joins_undirected crossing_def joins_def)
qed

lemma prim_loop_inv:
  "mst_ready g \<Longrightarrow> prim_inv g s0 st \<Longrightarrow>
   prim_inv g s0 (prim_loop g st) \<and>
   length (p_inMST (prim_loop g st)) = length (Map_keys (nodes g))"
proof (induction g st rule: prim_loop.induct)
  case (1 g st)
  from "1.prems"(1) have und: "\<not> isDirected g" and np: "no_parallel (Map_values (edges g))"
    and dV: "distinct (Map_keys (nodes g))" by (auto simp: mst_ready_def)
  from "1.prems"(2) have dS: "distinct (p_inMST st)" and SV: "set (p_inMST st) \<subseteq> node_set g"
    and s0: "s0 \<in> set (p_inMST st)" by (auto simp: prim_inv_def)
  have le: "length (p_inMST st) \<le> length (Map_keys (nodes g))"
  proof -
    have "card (set (p_inMST st)) \<le> card (node_set g)"
      using SV by (intro card_mono) (simp_all add: node_set_def)
    then show ?thesis using dS dV by (simp add: distinct_card node_set_def)
  qed
  show ?case
  proof (cases "length (p_inMST st) < length (Map_keys (nodes g))")
    case False
    with le "1.prems"(2) show ?thesis by (subst (1 2) prim_loop.simps) simp
  next
    case True
    have "set (p_inMST st) \<noteq> node_set g"
    proof
      assume "set (p_inMST st) = node_set g"
      then have "card (set (p_inMST st)) = card (node_set g)" by simp
      with dS dV True show False by (simp add: distinct_card node_set_def)
    qed
    with SV obtain v where v: "v \<in> node_set g" "v \<notin> set (p_inMST st)" by auto
    from crossing_edge_exists[OF "1.prems"(1) SV s0 v]
    have "\<exists>e \<in> edge_set g. crossing (set (p_inMST st)) e" .
    with prim_scan_least[OF und np, of "p_inMST st"] obtain e where
      scan: "prim_scan g (p_inMST st) = (Some e, Num (weight e))" by auto
    let ?newNode = "prim_newNode (p_inMST st) e"
    let ?st' = "st\<lparr>p_mstEdges := p_mstEdges st @ [e],
                   p_totalWeight := double_add (p_totalWeight st) (Num (weight e)),
                   p_inMST := Set_add (p_inMST st) ?newNode,
                   p_steps := p_steps st @
                     [\<lparr>ps_edge = e, ps_action = ''added'', ps_newNode = ?newNode,
                       ps_currentMST = p_mstEdges st @ [e],
                       ps_nodesInMST = Set_add (p_inMST st) ?newNode\<rparr>]\<rparr>"
    have inv': "prim_inv g s0 ?st'"
      using "1.prems" scan by (rule prim_inv_step)
    have unf: "prim_loop g st = prim_loop g ?st'"
      using True scan by (subst prim_loop.simps) (simp add: Let_def)
    from "1.IH"[OF True scan[symmetric] refl refl refl refl "1.prems"(1)] inv'
    show ?thesis unfolding unf by (simp add: Let_def)
  qed
qed

lemma spanning_tree_eq:
  assumes "spanning_tree g T" "F \<subseteq> T" "card F + 1 = card (node_set g)"
  shows "F = T"
proof -
  from assms(1) have "finite T" "card T + 1 = card (node_set g)"
    using finite_subset[OF _ finite_edge_set] by (auto simp: spanning_tree_def)
  with assms(2,3) show ?thesis by (intro card_subset_eq) auto
qed

lemma extends_to_lightest_empty: "extends_to_lightest g {}"
  by (auto simp: extends_to_lightest_def)

text \<open>A full tree that extends to a lightest one is a lightest one.\<close>

lemma lightest_of_full:
  assumes "extends_to_lightest g F" "card F + 1 = card (node_set g)" "spanning_tree g T"
  shows "spanning_tree g F \<and> weight_sum F \<le> weight_sum T"
proof -
  from assms(1,3) obtain T' where T': "spanning_tree g T'" "F \<subseteq> T'" "weight_sum T' \<le> weight_sum T"
    by (auto simp: extends_to_lightest_def)
  from spanning_tree_eq[OF T'(1,2) assms(2)] T' show ?thesis by simp
qed

lemma prim_tree:
  assumes rdy: "mst_ready g" and ne: "Map_keys (nodes g) \<noteq> []"
    and start: "case startNodeId of None \<Rightarrow> True | Some s \<Rightarrow> s = [] \<or> s \<in> node_set g"
  shows "\<exists>pr F. prim g startNodeId = Inr pr \<and> pr_totalWeight pr = Num (weight_sum F) \<and>
           spanning_tree g F \<and> extends_to_lightest g F"
proof -
  from ne obtain first others where keys: "Map_keys (nodes g) = first # others"
    by (cases "Map_keys (nodes g)") auto
  define s0 where "s0 = (case startNodeId of None \<Rightarrow> first | Some s \<Rightarrow> if s = [] then first else s)"
  have s0V: "s0 \<in> node_set g"
    using start keys by (auto simp: s0_def node_set_def split: option.splits)
  let ?init = "\<lparr>p_inMST = [s0], p_mstEdges = [], p_steps = [], p_totalWeight = Num 0\<rparr>"
  let ?st = "prim_loop g ?init"
  have "prim_inv g s0 ?init"
    using s0V by (simp add: prim_inv_def weight_sum_def extends_to_lightest_empty)
  from prim_loop_inv[OF rdy this] have inv: "prim_inv g s0 ?st"
    and full: "length (p_inMST ?st) = length (Map_keys (nodes g))" by auto
  let ?S = "set (p_inMST ?st)" and ?F = "set (p_mstEdges ?st)"
  from rdy have dV: "distinct (Map_keys (nodes g))" by (simp add: mst_ready_def)
  from inv have dS: "distinct (p_inMST ?st)" and SV: "?S \<subseteq> node_set g"
    and dF: "distinct (p_mstEdges ?st)" and FE: "?F \<subseteq> edge_set g"
    and len: "length (p_mstEdges ?st) + 1 = length (p_inMST ?st)"
    and link: "\<forall>u \<in> ?S. (s0, u) \<in> (adj_of ?F)\<^sup>*"
    and tw: "p_totalWeight ?st = Num (weight_sum ?F)"
    and ext: "extends_to_lightest g ?F"
    by (auto simp: prim_inv_def)
  have "card ?S = card (node_set g)"
    using dS dV full by (simp add: distinct_card node_set_def)
  with SV have S: "?S = node_set g" by (intro card_subset_eq) (simp_all add: node_set_def)
  have card: "card ?F + 1 = card (node_set g)"
    using len full dF dV by (simp add: distinct_card node_set_def)
  have "(u, v) \<in> (adj_of ?F)\<^sup>*" if "u \<in> node_set g" "v \<in> node_set g" for u v
  proof -
    from that link S have "(s0, u) \<in> (adj_of ?F)\<^sup>*" "(s0, v) \<in> (adj_of ?F)\<^sup>*" by auto
    with linked_sym[of s0 u ?F] show ?thesis by (auto intro: rtrancl_trans)
  qed
  with FE card have sp: "spanning_tree g ?F" by (simp add: spanning_tree_def)
  have "prim g startNodeId = Inr
          \<lparr>pr_algorithm = Some ''Prim'', pr_startNode = Some s0,
           pr_mstEdges = p_mstEdges ?st, pr_totalWeight = p_totalWeight ?st,
           pr_steps = p_steps ?st,
           pr_statistics = Some
             \<lparr>pst_totalNodes = length (nodes g), pst_mstEdges = length (p_mstEdges ?st),
              pst_nodesReached = length (p_inMST ?st),
              pst_isComplete = (length (p_inMST ?st) = length (Map_keys (nodes g))),
              pst_efficiency = efficiency (length (p_mstEdges ?st)) (length (nodes g))\<rparr>\<rparr>"
    using rdy keys by (simp add: prim_def mst_ready_def s0_def Let_def)
  with tw sp ext show ?thesis by (intro exI[of _ ?F] exI) auto
qed

lemma finite_reps: "finite V \<Longrightarrow> finite (reps uf V)"
proof -
  assume fin: "finite V"
  have "reps uf V = (\<Union>v \<in> V. {r. root_of (parent_get uf) (Val v) r})" by (auto simp: reps_def)
  moreover have "finite {r. root_of (parent_get uf) x r}" for x
  proof (cases "\<exists>r. root_of (parent_get uf) x r")
    case True
    then obtain r0 where "root_of (parent_get uf) x r0" ..
    then have "{r. root_of (parent_get uf) x r} = {r0}" by (auto dest: root_of_unique)
    then show ?thesis by simp
  next
    case False
    then show ?thesis by simp
  qed
  ultimately show ?thesis using fin by simp
qed

lemma finite_node_set: "finite (node_set g)"
  by (simp add: node_set_def)

lemma sorted_head_least: "sorted (map weight (e # es)) \<Longrightarrow> x \<in> set (e # es) \<Longrightarrow> weight e \<le> weight x"
  by auto

lemma kruskal_consider_inv:
  assumes rdy: "mst_ready g" and inv: "kruskal_inv g P st"
    and E: "set P \<union> set (e # es) = edge_set g" and dist: "distinct (P @ e # es)"
    and srt: "sorted (map weight (e # es))"
  shows "\<exists>st1. kruskal_consider st e = Some st1 \<and> kruskal_inv g (P @ [e]) st1"
proof -
  let ?uf = "k_unionFind st" and ?F = "set (k_mstEdges st)" and ?V = "node_set g"
  let ?a = "Val (source e) :: string jsval" and ?b = "Val (target e) :: string jsval"
  from rdy have ern: "edges_reference_nodes g" and ex: "exact_sums g"
    by (simp_all add: mst_ready_def)
  from inv have ce: "chains_end ?uf" and dF: "distinct (k_mstEdges st)" and FP: "?F \<subseteq> set P"
    and conn: "\<forall>p \<in> set P. same_class ?uf (Val (source p)) (Val (target p))"
    and cnt: "length (k_mstEdges st) + card (reps ?uf ?V) = card ?V"
    and tw: "k_totalWeight st = Num (weight_sum ?F)"
    and ext: "extends_to_lightest g ?F"
    by (auto simp: kruskal_inv_def)
  from E have eE: "e \<in> edge_set g" by auto
  from edge_endpoints_nodes[OF ern eE] have sV: "source e \<in> ?V" and tV: "target e \<in> ?V" by auto
  from dist have eP: "e \<notin> set P" by auto
  from connected_classes[OF ce, of ?a ?b] obtain uf1 where
    c1: "UnionFind_connected ?uf ?a ?b = Some (same_class ?uf ?a ?b, uf1)" and ce1: "chains_end uf1"
    and r1: "\<And>y r'. root_of (parent_get uf1) y r' = root_of (parent_get ?uf) y r'" by blast
  have sc1: "\<And>x y. same_class uf1 x y = same_class ?uf x y" by (simp add: same_class_def r1)
  have reps1: "reps uf1 ?V = reps ?uf ?V" by (simp add: reps_def r1)
  show ?thesis
  proof (cases "same_class ?uf ?a ?b")
    case True
    let ?st1 = "st\<lparr>k_unionFind := uf1,
                   k_steps := k_steps st @
                     [\<lparr>ks_edge = e, ks_action = ''rejected'',
                       ks_reason = ''Formar'' @ [CHR 0xC3, CHR 0xAD] @ ''a un ciclo'',
                       ks_currentMST = k_mstEdges st\<rparr>]\<rparr>"
    have "kruskal_consider st e = Some ?st1"
      using True by (simp add: kruskal_consider_def c1)
    moreover have "kruskal_inv g (P @ [e]) ?st1"
      unfolding kruskal_inv_def using ce1 dF FP conn cnt tw ext True
      by (auto simp: sc1 reps1)
    ultimately show ?thesis by blast
  next
    case False
    from union_roots[OF ce1, of ?a ?b] obtain uf2 ra rb c d where
      u2: "UnionFind_union uf1 ?a ?b = Some uf2" and ce2: "chains_end uf2"
      and ra: "root_of (parent_get uf1) ?a ra" and rb: "root_of (parent_get uf1) ?b rb"
      and cd: "(ra = rb \<and> c = d) \<or> (ra \<noteq> rb \<and> ((c = ra \<and> d = rb) \<or> (c = rb \<and> d = ra)))"
      and roots2: "\<And>z r'. root_of (parent_get uf2) z r' =
              (\<exists>r0. root_of (parent_get uf1) z r0 \<and> r' = (if r0 = c then d else r0))"
      by blast
    from False have "ra \<noteq> rb" using same_class_roots[OF ra rb] by (simp add: sc1)
    with cd have cd': "c \<noteq> d" "(c = ra \<and> d = rb) \<or> (c = rb \<and> d = ra)" by auto
    have inreps: "ra \<in> reps uf1 ?V" "rb \<in> reps uf1 ?V"
      using ra rb sV tV by (auto simp: reps_def)
    then have cdin: "c \<in> reps uf1 ?V" "d \<in> reps uf1 ?V" using cd' by auto
    have "reps uf2 ?V = (\<lambda>r0. if r0 = c then d else r0) ` reps uf1 ?V"
      by (auto simp: reps_def roots2 image_iff)
    also have "\<dots> = reps uf1 ?V - {c}" using cdin cd'(1) by (auto simp: image_iff)
    finally have reps2: "reps uf2 ?V = reps uf1 ?V - {c}" .
    have "Suc (card (reps uf1 ?V - {c})) = card (reps uf1 ?V)"
      using finite_reps[OF finite_node_set, of uf1 g] cdin(1) by (rule card_Suc_Diff1)
    then have "card (reps uf2 ?V) + 1 = card (reps uf1 ?V)"
      unfolding reps2 by simp
    with cnt reps1 have cnt2: "length (k_mstEdges st @ [e]) + card (reps uf2 ?V) = card ?V"
      by simp
    have grow: "same_class uf2 x y" if "same_class uf1 x y" for x y
      using that unfolding same_class_def roots2 by blast
    have ab2: "same_class uf2 ?a ?b"
    proof -
      have "root_of (parent_get uf2) ?a d" "root_of (parent_get uf2) ?b d"
        using ra rb cd' unfolding roots2 by auto
      then show ?thesis by (auto simp: same_class_def)
    qed
    let ?S = "{v. same_class uf1 (Val v) ?a}"
    have aS: "source e \<in> ?S" using same_class_refl[OF ce1] by simp
    have bS: "target e \<notin> ?S"
      using False same_class_sym[of uf1 ?b ?a] by (auto simp: sc1)
    have nocross: "\<not> crossing ?S p" if "same_class uf1 (Val (source p)) (Val (target p))" for p
      using that unfolding crossing_def
      by (auto intro: same_class_trans same_class_sym)
    have Fno: "\<forall>f \<in> ?F. \<not> crossing ?S f"
      using FP conn nocross by (auto simp: sc1)
    have least: "\<forall>e' \<in> edge_set g. crossing ?S e' \<longrightarrow> weight e \<le> weight e'"
    proof (intro ballI impI)
      fix e' assume e': "e' \<in> edge_set g" "crossing ?S e'"
      have "e' \<notin> set P"
      proof
        assume "e' \<in> set P"
        with conn have "same_class uf1 (Val (source e')) (Val (target e'))" by (simp add: sc1)
        from nocross[OF this] e'(2) show False by simp
      qed
      with e'(1) E have "e' \<in> set (e # es)" by blast
      with srt show "weight e \<le> weight e'" by (rule sorted_head_least)
    qed
    have ext2: "extends_to_lightest g (insert e ?F)"
      unfolding extends_to_lightest_def
    proof (intro allI impI)
      fix T assume "spanning_tree g T"
      with ext obtain T1 where T1: "spanning_tree g T1" "?F \<subseteq> T1" "weight_sum T1 \<le> weight_sum T"
        by (auto simp: extends_to_lightest_def)
      have j: "joins e (source e) (target e)" by (simp add: joins_def)
      from exchange[OF T1(1,2) Fno eE j aS bS sV tV least]
      obtain T' where "spanning_tree g T'" "insert e ?F \<subseteq> T'" "weight_sum T' \<le> weight_sum T1"
        by blast
      with T1(3) show "\<exists>T'. spanning_tree g T' \<and> insert e ?F \<subseteq> T' \<and> weight_sum T' \<le> weight_sum T"
        by (intro exI[of _ T']) simp
    qed
    have eF: "e \<notin> ?F" using FP eP by auto
    have "insert e ?F \<subseteq> edge_set g" using FP E eE by auto
    from weight_sum_bound[OF ex this] have "\<bar>weight_sum (insert e ?F)\<bar> \<le> 2 ^ 53" .
    moreover have "weight_sum (insert e ?F) = weight_sum ?F + weight e"
      using eF by (simp add: weight_sum_def)
    ultimately have tw1: "double_add (k_totalWeight st) (Num (weight e)) = Num (weight_sum (insert e ?F))"
      using tw by (simp add: double_of_int_exact)
    let ?st1 = "st\<lparr>k_unionFind := uf2,
                   k_mstEdges := k_mstEdges st @ [e],
                   k_totalWeight := double_add (k_totalWeight st) (Num (weight e)),
                   k_steps := k_steps st @
                     [\<lparr>ks_edge = e, ks_action = ''added'', ks_reason = ''No forma ciclo'',
                       ks_currentMST = k_mstEdges st @ [e]\<rparr>]\<rparr>"
    have "kruskal_consider st e = Some ?st1"
      using False u2 by (simp add: kruskal_consider_def c1)
    moreover have "kruskal_inv g (P @ [e]) ?st1"
      unfolding kruskal_inv_def
      using ce2 dF FP eF conn cnt2 tw1 ext2 ab2 grow
      by (auto simp: sc1)
    ultimately show ?thesis by blast
  qed
qed

lemma all_one_class:
  assumes rdy: "mst_ready g" and ce: "chains_end uf"
    and conn: "\<forall>p \<in> edge_set g. same_class uf (Val (source p)) (Val (target p))"
    and uv: "u \<in> node_set g" "v \<in> node_set g"
  shows "same_class uf (Val u) (Val v)"
proof -
  from rdy uv obtain k where "walk g u k v" by (auto simp: mst_ready_def connected_graph_def)
  then show ?thesis
  proof (induction rule: walk.induct)
    case walk_start
    show ?case by (rule same_class_refl[OF ce])
  next
    case (walk_step n w v)
    from rdy have "\<not> isDirected g" by (simp add: mst_ready_def)
    with walk_step.hyps(2) obtain e where "e \<in> edge_set g" "joins e w v"
      by (auto simp: getNeighbors_iff edge_joins_undirected)
    with conn have "same_class uf (Val w) (Val v)"
      by (auto simp: joins_def dest: same_class_sym)
    with walk_step.IH show ?case by (rule same_class_trans)
  qed
qed

lemma reps_single:
  assumes ce: "chains_end uf" and ne: "V \<noteq> {}"
    and one: "\<forall>u \<in> V. \<forall>v \<in> V. same_class uf (Val u) (Val v)"
  shows "card (reps uf V) = 1"
proof -
  from ne obtain v0 where v0: "v0 \<in> V" by auto
  from ce obtain r0 where r0: "root_of (parent_get uf) (Val v0) r0" by (auto simp: chains_end_def)
  have "reps uf V = {r0}"
  proof (intro equalityI subsetI)
    fix r assume "r \<in> reps uf V"
    then obtain v where v: "v \<in> V" "root_of (parent_get uf) (Val v) r" by (auto simp: reps_def)
    from one v(1) v0 have "same_class uf (Val v) (Val v0)" by simp
    with same_class_roots[OF v(2) r0] show "r \<in> {r0}" by simp
  next
    fix r assume "r \<in> {r0}"
    with v0 r0 show "r \<in> reps uf V" by (auto simp: reps_def)
  qed
  then show ?thesis by simp
qed

text \<open>When the loop is over, by the \<open>break\<close> or at the end of the list, the tree is full.\<close>

lemma kruskal_loop_full:
  assumes rdy: "mst_ready g" and ne: "node_set g \<noteq> {}"
  shows "kruskal_inv g P st \<Longrightarrow> set P \<union> set es = edge_set g \<Longrightarrow> distinct (P @ es) \<Longrightarrow>
         sorted (map weight es) \<Longrightarrow>
         \<exists>st'. kruskal_loop g es st = Some st' \<and>
               set (k_mstEdges st') \<subseteq> edge_set g \<and>
               card (set (k_mstEdges st')) + 1 = card (node_set g) \<and>
               k_totalWeight st' = Num (weight_sum (set (k_mstEdges st'))) \<and>
               extends_to_lightest g (set (k_mstEdges st'))"
proof (induction es arbitrary: P st)
  case Nil
  let ?uf = "k_unionFind st"
  from Nil.prems(1) have ce: "chains_end ?uf" and dF: "distinct (k_mstEdges st)"
    and FP: "set (k_mstEdges st) \<subseteq> set P"
    and conn: "\<forall>p \<in> set P. same_class ?uf (Val (source p)) (Val (target p))"
    and cnt: "length (k_mstEdges st) + card (reps ?uf (node_set g)) = card (node_set g)"
    and tw: "k_totalWeight st = Num (weight_sum (set (k_mstEdges st)))"
    and ext: "extends_to_lightest g (set (k_mstEdges st))"
    by (auto simp: kruskal_inv_def)
  from Nil.prems(2) have P: "set P = edge_set g" by simp
  have "\<forall>u \<in> node_set g. \<forall>v \<in> node_set g. same_class ?uf (Val u) (Val v)"
    using all_one_class[OF rdy ce] conn P by blast
  from reps_single[OF ce ne this] cnt have "length (k_mstEdges st) + 1 = card (node_set g)" by simp
  with dF have "card (set (k_mstEdges st)) + 1 = card (node_set g)" by (simp add: distinct_card)
  with FP P tw ext show ?case by simp
next
  case (Cons e es)
  from kruskal_consider_inv[OF rdy Cons.prems(1,2,3,4)] obtain st1 where
    st1: "kruskal_consider st e = Some st1" and inv1: "kruskal_inv g (P @ [e]) st1" by blast
  from rdy have dV: "distinct (Map_keys (nodes g))" by (simp add: mst_ready_def)
  have nV: "length (nodes g) = card (node_set g)"
    using distinct_card[OF dV] by (simp add: node_set_def Map_keys_def)
  have pos: "card (node_set g) > 0" using ne by (simp add: card_gt_0_iff finite_node_set)
  show ?case
  proof (cases "int (length (k_mstEdges st1)) = int (length (nodes g)) - 1")
    case True
    then have "length (k_mstEdges st1) + 1 = card (node_set g)" using nV pos by simp
    moreover from inv1 have "distinct (k_mstEdges st1)" "set (k_mstEdges st1) \<subseteq> set (P @ [e])"
      "k_totalWeight st1 = Num (weight_sum (set (k_mstEdges st1)))"
      "extends_to_lightest g (set (k_mstEdges st1))" by (auto simp: kruskal_inv_def)
    moreover have "kruskal_loop g (e # es) st = Some st1" using st1 True by simp
    ultimately show ?thesis using Cons.prems(2) by (auto simp: distinct_card)
  next
    case False
    have "\<exists>st'. kruskal_loop g es st1 = Some st' \<and>
               set (k_mstEdges st') \<subseteq> edge_set g \<and>
               card (set (k_mstEdges st')) + 1 = card (node_set g) \<and>
               k_totalWeight st' = Num (weight_sum (set (k_mstEdges st'))) \<and>
               extends_to_lightest g (set (k_mstEdges st'))"
      using inv1 Cons.prems(2,3,4) by (intro Cons.IH[of "P @ [e]" st1]) auto
    moreover have "kruskal_loop g (e # es) st = kruskal_loop g es st1" using st1 False by simp
    ultimately show ?thesis by simp
  qed
qed

lemma kruskal_initial:
  assumes "distinct (Map_keys (nodes g))"
  shows "kruskal_inv g []
           \<lparr>k_mstEdges = [], k_unionFind = UnionFind_new (Map_keys (nodes g)),
            k_steps = [], k_totalWeight = Num 0\<rparr>"
proof -
  let ?uf = "UnionFind_new (Map_keys (nodes g))"
  have "reps ?uf (node_set g) = Val ` node_set g"
  proof (intro equalityI subsetI)
    fix r assume "r \<in> reps ?uf (node_set g)"
    then obtain v where v: "v \<in> node_set g" "root_of (parent_get ?uf) (Val v) r"
      by (auto simp: reps_def)
    from new_roots[of "Map_keys (nodes g)" "Val v"] v(1)
    have "root_of (parent_get ?uf) (Val v) (Val v)" by (simp add: node_set_def)
    with v show "r \<in> Val ` node_set g" by (auto dest: root_of_unique)
  next
    fix r assume "r \<in> Val ` node_set g"
    then obtain v where v: "v \<in> node_set g" "r = Val v" by auto
    from new_roots[of "Map_keys (nodes g)" "Val v"] v(1)
    have "root_of (parent_get ?uf) (Val v) (Val v)" by (simp add: node_set_def)
    with v show "r \<in> reps ?uf (node_set g)" by (auto simp: reps_def)
  qed
  then have "card (reps ?uf (node_set g)) = card (node_set g)"
    by (simp add: card_image inj_on_def)
  then show ?thesis
    by (simp add: kruskal_inv_def new_chains_end weight_sum_def extends_to_lightest_empty)
qed

lemma kruskal_tree:
  assumes rdy: "mst_ready g" and ne: "node_set g \<noteq> {}"
  shows "\<exists>kr F. kruskal g = Some (Inr kr) \<and> kr_totalWeight kr = Num (weight_sum F) \<and>
           card F + 1 = card (node_set g) \<and> extends_to_lightest g F"
proof -
  from rdy have w: "isWeighted g" and dV: "distinct (Map_keys (nodes g))"
    and np: "no_parallel (Map_values (edges g))" by (auto simp: mst_ready_def)
  let ?init = "\<lparr>k_mstEdges = [], k_unionFind = UnionFind_new (Map_keys (nodes g)),
                k_steps = [], k_totalWeight = Num 0\<rparr>"
  have "distinct ([] @ sorted_edges g)"
    using no_parallel_distinct[OF np] by (simp add: sorted_edges_props)
  from kruskal_loop_full[OF rdy ne kruskal_initial[OF dV] _ this sorted_edges_props(3)]
  obtain st' where st': "kruskal_loop g (sorted_edges g) ?init = Some st'"
    "card (set (k_mstEdges st')) + 1 = card (node_set g)"
    "k_totalWeight st' = Num (weight_sum (set (k_mstEdges st')))"
    "extends_to_lightest g (set (k_mstEdges st'))"
    by (auto simp: sorted_edges_props)
  have "kruskal g = Some (Inr \<lparr>kr_algorithm = ''Kruskal'', kr_mstEdges = k_mstEdges st',
                                kr_totalWeight = k_totalWeight st', kr_steps = k_steps st',
                                kr_statistics =
                                  \<lparr>ms_originalEdges = length (sorted_edges g),
                                   ms_mstEdges = length (k_mstEdges st'),
                                   ms_totalNodes = length (nodes g),
                                   ms_efficiency = efficiency (length (k_mstEdges st'))
                                                     (length (nodes g))\<rparr>\<rparr>)"
    using w st'(1) by (simp add: kruskal_def)
  with st'(2,3,4) show ?thesis by (intro exI[of _ "set (k_mstEdges st')"] exI) auto
qed

lemma sameWeight_eq: "sameWeight (Num k) (Num k)"
  by (simp add: sameWeight_def double_of_int_exact)

lemma mst_weights_agree:
  assumes rdy: "mst_ready g"
    and start: "case startNodeId of None \<Rightarrow> True | Some s \<Rightarrow> Map_has (nodes g) s"
  shows "\<exists>kr pr w. kruskal g = Some (Inr kr) \<and> prim g startNodeId = Inr pr \<and>
           kr_totalWeight kr = Num w \<and> pr_totalWeight pr = Num w \<and>
           (\<forall>T. spanning_tree g T \<longrightarrow> w \<le> weight_sum T) \<and>
           (nodes g \<noteq> [] \<longrightarrow> (\<exists>F. spanning_tree g F \<and> w = weight_sum F))"
proof (cases "Map_keys (nodes g) = []")
  case True
  then have nn: "nodes g = []" by (simp add: Map_keys_def)
  from rdy have w: "isWeighted g" and ern: "edges_reference_nodes g" by (auto simp: mst_ready_def)
  have "Map_values (edges g) = []"
  proof (cases "Map_values (edges g)")
    case (Cons e es)
    with ern nn show ?thesis by (auto simp: edges_reference_nodes_def Map_has_def)
  qed simp
  then have "sorted_edges g = []" by (simp add: sorted_edges_def getEdges_def js_sort_def)
  then have "\<exists>kr. kruskal g = Some (Inr kr) \<and> kr_totalWeight kr = Num 0"
    using w by (simp add: kruskal_def)
  moreover have "\<exists>pr. prim g startNodeId = Inr pr \<and> pr_totalWeight pr = Num 0"
    using w True by (simp add: prim_def)
  moreover have "\<not> spanning_tree g T" for T
    using True by (simp add: spanning_tree_def node_set_def)
  ultimately show ?thesis using nn by auto
next
  case False
  then have ne: "node_set g \<noteq> {}" by (simp add: node_set_def)
  have st: "case startNodeId of None \<Rightarrow> True | Some s \<Rightarrow> s = [] \<or> s \<in> node_set g"
    using start by (auto simp: Map_has_keys node_set_def split: option.splits)
  from prim_tree[OF rdy False st] obtain pr Fp where
    pr: "prim g startNodeId = Inr pr" "pr_totalWeight pr = Num (weight_sum Fp)"
    "spanning_tree g Fp" "extends_to_lightest g Fp" by blast
  from kruskal_tree[OF rdy ne] obtain kr Fk where
    kr: "kruskal g = Some (Inr kr)" "kr_totalWeight kr = Num (weight_sum Fk)"
    "card Fk + 1 = card (node_set g)" "extends_to_lightest g Fk" by blast
  from lightest_of_full[OF kr(4,3) pr(3)] have k: "spanning_tree g Fk" "weight_sum Fk \<le> weight_sum Fp"
    by auto
  from pr(3) have "card Fp + 1 = card (node_set g)" by (simp add: spanning_tree_def)
  from lightest_of_full[OF pr(4) this k(1)] have "weight_sum Fp \<le> weight_sum Fk" by simp
  with k(2) have eq: "weight_sum Fp = weight_sum Fk" by simp
  have least: "weight_sum Fk \<le> weight_sum T" if "spanning_tree g T" for T
    using lightest_of_full[OF kr(4,3) that] by simp
  from pr kr eq least k(1) show ?thesis by auto
qed

lemma string_of_int_digits:
  "string_of_int 1 = ''1''" "string_of_int 2 = ''2''" "string_of_int 3 = ''3''"
  "string_of_int 4 = ''4''" "string_of_int 5 = ''5''"
  by code_simp+

lemma graph_directed_eq:
  "graph_directed =
     \<lparr>nodes = [(''A'', \<lparr>node_id = ''A'', node_label = ''A'', node_x = 0, node_y = 0, node_data = []\<rparr>),
               (''B'', \<lparr>node_id = ''B'', node_label = ''B'', node_x = 0, node_y = 0, node_data = []\<rparr>)],
      edges = [(''edge_1'', \<lparr>edge_id = ''edge_1'', source = ''A'', target = ''B'', weight = 1,
                             edge_label = ''1'', directed = True\<rparr>),
               (''edge_2'', \<lparr>edge_id = ''edge_2'', source = ''B'', target = ''A'', weight = 5,
                             edge_label = ''5'', directed = True\<rparr>)],
      isDirected = True, isWeighted = True, nodeIdCounter = 1, edgeIdCounter = 3\<rparr>"
  by (simp add: graph_directed_def apply_mutations_def Graph_new_def setGraphType_def addNode_def
      addEdge_def next_node_id_def next_edge_id_def Map_has_def edge_exists_def Map_values_def
      string_of_int_digits Let_def)

lemma graph_triangle_eq:
  "graph_triangle =
     \<lparr>nodes = [(''A'', \<lparr>node_id = ''A'', node_label = ''A'', node_x = 0, node_y = 0, node_data = []\<rparr>),
               (''B'', \<lparr>node_id = ''B'', node_label = ''B'', node_x = 0, node_y = 0, node_data = []\<rparr>),
               (''C'', \<lparr>node_id = ''C'', node_label = ''C'', node_x = 0, node_y = 0, node_data = []\<rparr>)],
      edges = [(''edge_1'', \<lparr>edge_id = ''edge_1'', source = ''A'', target = ''B'', weight = 1,
                             edge_label = ''1'', directed = False\<rparr>),
               (''edge_2'', \<lparr>edge_id = ''edge_2'', source = ''B'', target = ''C'', weight = 2,
                             edge_label = ''2'', directed = False\<rparr>),
               (''edge_3'', \<lparr>edge_id = ''edge_3'', source = ''A'', target = ''C'', weight = 4,
                             edge_label = ''4'', directed = False\<rparr>)],
      isDirected = False, isWeighted = True, nodeIdCounter = 1, edgeIdCounter = 4\<rparr>"
  by (simp add: graph_triangle_def apply_mutations_def Graph_new_def setGraphType_def addNode_def
      addEdge_def next_node_id_def next_edge_id_def Map_has_def edge_exists_def Map_values_def
      string_of_int_digits Let_def)

lemma neighbors_directed:
  "getNeighbors graph_directed ''A'' = [''B'']" "getNeighbors graph_directed ''B'' = [''A'']"
  by (simp_all add: graph_directed_eq getNeighbors_def Map_values_def Set_add_def)

lemma neighbors_triangle:
  "getNeighbors graph_triangle ''A'' = [''B'', ''C'']"
  "getNeighbors graph_triangle ''B'' = [''A'', ''C'']"
  "getNeighbors graph_triangle ''C'' = [''B'', ''A'']"
  by (simp_all add: graph_triangle_eq getNeighbors_def Map_values_def Set_add_def)

lemma walk_one: "v \<in> set (getNeighbors g u) \<Longrightarrow> walk g u 1 v"
  using walk_step[OF walk_start, of v g u] by simp

lemma connected_directed: "connected_graph graph_directed"
proof -
  have ns: "node_set graph_directed = {''A'', ''B''}"
    by (simp add: node_set_def graph_directed_eq Map_keys_def)
  have "walk graph_directed ''A'' 1 ''B''" "walk graph_directed ''B'' 1 ''A''"
    by (rule walk_one, simp add: neighbors_directed)+
  moreover have "walk graph_directed ''A'' 0 ''A''" "walk graph_directed ''B'' 0 ''B''"
    by (rule walk_start)+
  ultimately show ?thesis unfolding connected_graph_def ns by blast
qed

lemma connected_triangle: "connected_graph graph_triangle"
proof -
  have ns: "node_set graph_triangle = {''A'', ''B'', ''C''}"
    by (simp add: node_set_def graph_triangle_eq Map_keys_def)
  have "walk graph_triangle ''A'' 1 ''B''" "walk graph_triangle ''A'' 1 ''C''"
    "walk graph_triangle ''B'' 1 ''A''" "walk graph_triangle ''B'' 1 ''C''"
    "walk graph_triangle ''C'' 1 ''A''" "walk graph_triangle ''C'' 1 ''B''"
    by (rule walk_one, simp add: neighbors_triangle)+
  moreover have "walk graph_triangle ''A'' 0 ''A''" "walk graph_triangle ''B'' 0 ''B''"
    "walk graph_triangle ''C'' 0 ''C''"
    by (rule walk_start)+
  ultimately show ?thesis unfolding connected_graph_def ns by blast
qed

lemma mst_ready_triangle: "mst_ready graph_triangle"
  unfolding mst_ready_def
  using connected_triangle
  by (simp add: graph_triangle_eq[symmetric])
     (simp add: graph_triangle_eq Map_keys_def edges_reference_nodes_def Map_values_def Map_has_def
        joins_def exact_sums_def getEdges_def)

lemma kruskal_directed:
  "map_option (map_sum id kr_totalWeight) (kruskal graph_directed) = Some (Inr (Num 1))"
  unfolding graph_directed_eq by code_simp

lemma prim_directed:
  "map_sum id pr_totalWeight (prim graph_directed (Some ''B'')) = Inr (Num 5)"
  unfolding graph_directed_eq by code_simp

lemma kruskal_triangle:
  "map_option (map_sum id kr_totalWeight) (kruskal graph_triangle) = Some (Inr (Num 3))"
  unfolding graph_triangle_eq by code_simp

lemma digit_chars:
  "digit_char 0 = CHR ''0''" "digit_char (Suc 0) = CHR ''1''" "digit_char 2 = CHR ''2''"
  "digit_char 3 = CHR ''3''" "digit_char 4 = CHR ''4''" "digit_char 5 = CHR ''5''"
  "digit_char 6 = CHR ''6''" "digit_char 7 = CHR ''7''" "digit_char 8 = CHR ''8''"
  "digit_char 9 = CHR ''9''"
  by code_simp+

lemma string_of_int_big: "string_of_int 9007199254740992 = ''9007199254740992''"
  by (simp add: string_of_int_def string_of_nat.simps digit_chars)

lemma graph_path_eq:
  "graph_path =
     \<lparr>nodes = [(''A'', \<lparr>node_id = ''A'', node_label = ''A'', node_x = 0, node_y = 0, node_data = []\<rparr>),
               (''B'', \<lparr>node_id = ''B'', node_label = ''B'', node_x = 0, node_y = 0, node_data = []\<rparr>),
               (''C'', \<lparr>node_id = ''C'', node_label = ''C'', node_x = 0, node_y = 0, node_data = []\<rparr>),
               (''D'', \<lparr>node_id = ''D'', node_label = ''D'', node_x = 0, node_y = 0, node_data = []\<rparr>)],
      edges = [(''edge_1'', \<lparr>edge_id = ''edge_1'', source = ''A'', target = ''B'',
                             weight = 9007199254740992, edge_label = ''9007199254740992'',
                             directed = False\<rparr>),
               (''edge_2'', \<lparr>edge_id = ''edge_2'', source = ''B'', target = ''C'', weight = 1,
                             edge_label = ''1'', directed = False\<rparr>),
               (''edge_3'', \<lparr>edge_id = ''edge_3'', source = ''C'', target = ''D'', weight = 1,
                             edge_label = ''1'', directed = False\<rparr>)],
      isDirected = False, isWeighted = True, nodeIdCounter = 1, edgeIdCounter = 4\<rparr>"
  by (simp add: graph_path_def apply_mutations_def Graph_new_def setGraphType_def addNode_def
      addEdge_def next_node_id_def next_edge_id_def Map_has_def edge_exists_def Map_values_def
      string_of_int_digits string_of_int_big Let_def)

text \<open>
  On the path, whose weights do not add up exactly, the two totals differ: Kruskal adds
  \<open>1 + 1 + 2^53\<close>, which is \<open>2^53 + 2\<close>, and Prim from A adds \<open>2^53 + 1 + 1\<close>, where each sum
  is rounded back to \<open>2^53\<close>.
\<close>

lemma kruskal_prim_differ_rounding:
  "\<not> exact_sums graph_path \<and>
   map_option (map_sum id kr_totalWeight) (kruskal graph_path) = Some (Inr (Num 9007199254740994)) \<and>
   map_sum id pr_totalWeight (prim graph_path (Some ''A'')) = Inr (Num 9007199254740992) \<and>
   \<not> sameWeight (Num 9007199254740994) (Num 9007199254740992)"
proof -
  have "\<not> exact_sums graph_path"
    by (simp add: graph_path_eq exact_sums_def getEdges_def Map_values_def)
  moreover have "map_option (map_sum id kr_totalWeight) (kruskal graph_path)
                   = Some (Inr (Num 9007199254740994))"
    unfolding graph_path_eq by code_simp
  moreover have "map_sum id pr_totalWeight (prim graph_path (Some ''A''))
                   = Inr (Num 9007199254740992)"
    unfolding graph_path_eq by code_simp
  moreover have "\<not> sameWeight (Num 9007199254740994) (Num 9007199254740992)"
    by (simp add: sameWeight_def double_of_int_exact)
  ultimately show ?thesis by simp
qed

lemma exact_sums_directed: "exact_sums graph_directed"
  by (simp add: graph_directed_eq exact_sums_def getEdges_def Map_values_def)

lemma sameWeight_1_5: "\<not> sameWeight (Num 1) (Num 5)"
  by (simp add: sameWeight_def double_of_int_exact)
section \<open>Claims about the graph mutators\<close>


text \<open>
  C2, as stated, fails: on the graph with nodes A, B and the edge A-B, a second
  \<open>addEdge('A','B')\<close> without an id is rejected as a duplicate, but \<open>edgeIdCounter\<close> has
  already been advanced, so the state after the failed call differs from the state before.
\<close>

theorem addEdge_duplicate_changes_state:
  "fst (addEdge graph_AB ''A'' ''B'' 1 [] None) = Inl DuplicateEdgeError \<and>
   snd (addEdge graph_AB ''A'' ''B'' 1 [] None) \<noteq> graph_AB"
  by (simp add: graph_AB_eq addEdge_def next_edge_id_def Map_has_def edge_exists_def Map_values_def)

text \<open>
  C2 (amended): a rejected \<open>addNode\<close> or \<open>addEdge\<close> leaves nodes, edges, \<open>isDirected\<close>,
  \<open>isWeighted\<close> and the other counter exactly as they were. The counter of the call's own
  kind is unchanged when an id was supplied and for a missing endpoint; when the id was
  generated (no id, or the empty string) it has advanced by one.
\<close>

theorem rejected_mutation_state:
  "(addNode g nid lbl x y dat = (Inl err, g') \<longrightarrow>
      err = DuplicateIdError \<and>
      nodes g' = nodes g \<and> edges g' = edges g \<and> isDirected g' = isDirected g \<and>
      isWeighted g' = isWeighted g \<and> edgeIdCounter g' = edgeIdCounter g \<and>
      nodeIdCounter g' = (if falsy nid then nodeIdCounter g + 1 else nodeIdCounter g)) \<and>
   (addEdge g s t w lbl2 eid = (Inl err2, g'') \<longrightarrow>
      (err2 = MissingEndpointError \<or> err2 = DuplicateEdgeError) \<and>
      nodes g'' = nodes g \<and> edges g'' = edges g \<and> isDirected g'' = isDirected g \<and>
      isWeighted g'' = isWeighted g \<and> nodeIdCounter g'' = nodeIdCounter g \<and>
      edgeIdCounter g'' = (if err2 = DuplicateEdgeError \<and> falsy eid then edgeIdCounter g + 1
                           else edgeIdCounter g))"
  by (auto simp: addNode_result addEdge_result next_node_id_state next_edge_id_state Let_def
           split: if_splits)

text \<open>Both rejections on the graph A-B: a duplicate node id, and a duplicate edge without an id.\<close>

theorem rejected_mutation_state_witness:
  "addNode graph_AB (Some ''A'') [] 0 0 [] = (Inl DuplicateIdError, graph_AB) \<and>
   addEdge graph_AB ''B'' ''A'' 3 [] None = (Inl DuplicateEdgeError, graph_AB\<lparr>edgeIdCounter := 3\<rparr>) \<and>
   edgeIdCounter (graph_AB\<lparr>edgeIdCounter := 3\<rparr>) = edgeIdCounter graph_AB + 1 \<and>
   edges (graph_AB\<lparr>edgeIdCounter := 3\<rparr>) = edges graph_AB"
proof -
  have n: "addNode graph_AB (Some ''A'') [] 0 0 [] = (Inl DuplicateIdError, graph_AB)"
    by (simp add: graph_AB_eq addNode_def next_node_id_def Map_has_def)
  have e: "addEdge graph_AB ''B'' ''A'' 3 [] None = (Inl DuplicateEdgeError, graph_AB\<lparr>edgeIdCounter := 3\<rparr>)"
    by (simp add: graph_AB_eq addEdge_def next_edge_id_def Map_has_def edge_exists_def Map_values_def)
  from rejected_mutation_state[of graph_AB "Some ''A''" "[]" 0 0 "[]" DuplicateIdError graph_AB
         "''B''" "''A''" 3 "[]" None DuplicateEdgeError "graph_AB\<lparr>edgeIdCounter := 3\<rparr>"] n e
  show ?thesis by simp
qed

text \<open>
  C5, as stated, fails for \<open>updateEdge\<close>: assigning \<open>source: 'Z'\<close> to the edge A-B leaves an
  edge whose source is not a node.
\<close>

theorem updateEdge_breaks_endpoints:
  "\<not> edges_reference_nodes (apply_mutations graph_AB
        [UpdateEdge ''edge_1'' (no_edge_props\<lparr>p_source := Some ''Z''\<rparr>)])"
  by (simp add: graph_AB_eq apply_mutations_def updateEdge_def Map_get_def assign_edge_def
      assign_field_def no_edge_props_def edges_reference_nodes_def Map_values_def Map_has_def)

text \<open>
  C5 (amended): the invariant "every edge's source and target are keys of the node map"
  is kept by every sequence of \<open>addNode\<close>, \<open>addEdge\<close>, \<open>removeNode\<close>, \<open>removeEdge\<close>,
  \<open>updateNode\<close>, \<open>updateNodePosition\<close>, \<open>setGraphType\<close>, \<open>clear\<close>, of \<open>updateEdge\<close> calls that assign
  neither \<open>source\<close> nor \<open>target\<close>, and of \<open>fromJSON\<close> calls whose snapshot lists the endpoints of
  each of its edges among its nodes; and a successful \<open>removeNode(id)\<close> leaves no edge whose
  source or target is \<open>id\<close>.
\<close>

theorem endpoints_invariant:
  "(edges_reference_nodes g \<and> (\<forall>m \<in> set ms. keeps_endpoints m) \<longrightarrow>
      edges_reference_nodes (apply_mutations g ms)) \<and>
   (fst (removeNode g i) \<longrightarrow>
      (\<forall>e \<in> set (Map_values (edges (snd (removeNode g i)))). source e \<noteq> i \<and> target e \<noteq> i))"
proof -
  have "fst (removeNode g i) \<Longrightarrow> Map_has (nodes g) i"
    by (auto simp: removeNode_def Let_def split: if_splits)
  then show ?thesis
    using removeNode_edges(2)[of g i]
    by (fastforce simp: apply_mutations_def keeps_endpoints_run in_Map_values)
qed

text \<open>On the graph A-B: removing B takes the edge with it, and the invariant holds afterwards.\<close>

theorem endpoints_invariant_witness:
  "edges_reference_nodes graph_AB \<and>
   list_all keeps_endpoints [RemoveNode ''B'', AddNode None [] 0 0 []] \<and>
   edges_reference_nodes (apply_mutations graph_AB [RemoveNode ''B'', AddNode None [] 0 0 []]) \<and>
   fst (removeNode graph_AB ''B'') \<and> edges (snd (removeNode graph_AB ''B'')) = []"
proof -
  have a: "edges_reference_nodes graph_AB"
    by (simp add: graph_AB_eq edges_reference_nodes_def Map_values_def Map_has_def)
  have b: "\<forall>m \<in> set [RemoveNode ''B'', AddNode None [] 0 0 []]. keeps_endpoints m" by simp
  have c: "fst (removeNode graph_AB ''B'')"
    by (simp add: graph_AB_eq removeNode_def Map_has_def)
  have d: "edges (snd (removeNode graph_AB ''B'')) = []"
    by (simp add: graph_AB_eq removeNode_def Map_has_def Map_delete_def)
  from endpoints_invariant[of graph_AB "[RemoveNode ''B'', AddNode None [] 0 0 []]" "''B''"] a b c d
  show ?thesis by simp
qed

text \<open>
  C4, as stated, fails: \<open>getEdgeWeight\<close> returns the stored weight, and \<open>updateEdge\<close> stores
  the weight it is given. On the unweighted graph A-B, after \<open>updateEdge('edge_1', {weight: 5})\<close>
  the effective weight of A-B is 5.
\<close>

theorem updateEdge_weight_on_unweighted:
  "\<not> isWeighted (apply_mutations graph_AB [UpdateEdge ''edge_1'' (no_edge_props\<lparr>p_weight := Some 5\<rparr>)]) \<and>
   getEdgeWeight (apply_mutations graph_AB [UpdateEdge ''edge_1'' (no_edge_props\<lparr>p_weight := Some 5\<rparr>)])
     ''A'' ''B'' = Num 5"
  by (simp add: graph_AB_eq apply_mutations_def updateEdge_def Map_get_def assign_edge_def
      assign_field_def no_edge_props_def getEdgeWeight_def Map_values_def edge_joins_def)

text \<open>
  C4 (amended): starting from an unweighted graph whose stored weights are all 1 (a new
  graph is one), after every sequence of \<open>addNode\<close>, \<open>removeNode\<close>, \<open>addEdge\<close> with any weight,
  \<open>removeEdge\<close>, \<open>updateNode\<close>, \<open>updateNodePosition\<close>, \<open>clear\<close>, \<open>setGraphType(_, false)\<close>, of
  \<open>updateEdge\<close> calls that assign no weight other than 1 and of \<open>fromJSON\<close> calls with an
  unweighted snapshot whose weights are all 1, the graph is unweighted and \<open>getEdgeWeight\<close>
  of every edge's endpoints is 1.
\<close>

theorem unweighted_effective_weight:
  assumes "\<not> isWeighted g" and "unit_weights g" and "\<forall>m \<in> set ms. keeps_unit_weights m"
  shows "\<not> isWeighted (apply_mutations g ms) \<and>
         (\<forall>e \<in> set (Map_values (edges (apply_mutations g ms))).
            getEdgeWeight (apply_mutations g ms) (source e) (target e) = Num 1)"
  using keeps_unit_weights_run[OF assms] getEdgeWeight_unit
  by (auto simp: apply_mutations_def)

text \<open>The edge A-B was added with weight 7 to an unweighted graph; its effective weight is 1.\<close>

theorem unweighted_effective_weight_witness:
  "\<not> isWeighted Graph_new \<and> unit_weights Graph_new \<and>
   list_all keeps_unit_weights [AddNode (Some ''A'') [] 0 0 [], AddNode (Some ''B'') [] 0 0 [],
                AddEdge ''A'' ''B'' 7 [] None] \<and>
   getEdgeWeight graph_AB ''A'' ''B'' = Num 1"
proof -
  have a: "\<not> isWeighted Graph_new" "unit_weights Graph_new"
    by (simp_all add: Graph_new_def unit_weights_def Map_values_def)
  have b: "\<forall>m \<in> set [AddNode (Some ''A'') [] 0 0 [], AddNode (Some ''B'') [] 0 0 [],
                AddEdge ''A'' ''B'' 7 [] None]. keeps_unit_weights m" by simp
  have c: "\<lparr>edge_id = ''edge_1'', source = ''A'', target = ''B'', weight = 1,
            edge_label = [], directed = False\<rparr> \<in> set (Map_values (edges graph_AB))"
    by (simp add: graph_AB_eq Map_values_def)
  from unweighted_effective_weight[OF a b] c have "getEdgeWeight graph_AB ''A'' ''B'' = Num 1"
    unfolding graph_AB_def[symmetric] by fastforce
  with a b show ?thesis by simp
qed

text \<open>
  C8, as stated, fails: \<open>updateNode('A', {id: 'B'})\<close> changes the \<open>id\<close> field of the node
  stored under key A; \<open>fromJSON\<close> files every node under its \<open>id\<close> field, so the two nodes
  of the graph collapse into one on the round trip.
\<close>

theorem roundtrip_after_id_update:
  "length (nodes graph_renamed) = 2 \<and> length (nodes (fromJSON Graph_new (toJSON graph_renamed))) = 1"
  by (simp add: graph_renamed_def apply_mutations_def Graph_new_def addNode_def next_node_id_def
      Map_has_def Let_def updateNode_def Map_get_def assign_node_def assign_field_def no_props_def
      toJSON_def fromJSON_def clear_def Map_values_def or_one_def)

text \<open>
  C8 (amended): for every graph whose node and edge entries are stored under their own
  \<open>id\<close> field (with the distinct keys of a \<open>Map\<close>) and whose id counters are not 0,
  \<open>fromJSON(g.toJSON())\<close> on any graph yields exactly \<open>g\<close>: the same nodes, edges, flags and
  counters; and \<open>fromJSON\<close> never depends on the state it replaces.
\<close>

theorem toJSON_fromJSON_roundtrip:
  "(keys_are_ids g \<and> nodeIdCounter g \<noteq> 0 \<and> edgeIdCounter g \<noteq> 0 \<longrightarrow> fromJSON h (toJSON g) = g) \<and>
   fromJSON h d = fromJSON h' d"
proof -
  have "fromJSON h (toJSON g) = g"
    if k: "keys_are_ids g" and c: "nodeIdCounter g \<noteq> 0" "edgeIdCounter g \<noteq> 0"
  proof -
    have n: "foldl (\<lambda>m n. Map_set m (node_id n) n) [] (Map_values (nodes g)) = [] @ nodes g"
      using k by (intro foldl_Map_set_rebuild) (auto simp: keys_are_ids_def Map_keys_def)
    have e: "foldl (\<lambda>m e. Map_set m (edge_id e) e) [] (Map_values (edges g)) = [] @ edges g"
      using k by (intro foldl_Map_set_rebuild) (auto simp: keys_are_ids_def Map_keys_def)
    show ?thesis using n e c
      by (simp add: fromJSON_def toJSON_def Let_def clear_def or_one_def)
  qed
  moreover have "fromJSON h d = fromJSON h' d"
    by (simp add: fromJSON_def Let_def clear_def)
  ultimately show ?thesis by blast
qed

text \<open>The graph A-B is restored exactly, whatever graph it is loaded into.\<close>

theorem toJSON_fromJSON_roundtrip_witness:
  "keys_are_ids graph_AB \<and> nodeIdCounter graph_AB \<noteq> 0 \<and> edgeIdCounter graph_AB \<noteq> 0 \<and>
   fromJSON graph_renamed (toJSON graph_AB) = graph_AB"
proof -
  have a: "keys_are_ids graph_AB"
    by (simp add: graph_AB_eq keys_are_ids_def Map_keys_def)
  have b: "nodeIdCounter graph_AB \<noteq> 0" "edgeIdCounter graph_AB \<noteq> 0"
    by (simp_all add: graph_AB_eq)
  from toJSON_fromJSON_roundtrip[of graph_AB graph_renamed] a b show ?thesis by simp
qed

section \<open>Claims about the disjoint-set structure\<close>


text \<open>
  C9: for the structure built over any element list, every sequence of \<open>find\<close>, \<open>union\<close> and
  \<open>connected\<close> calls returns, and in every state \<open>u\<close> so reached, for all values \<open>a\<close>, \<open>b\<close>, \<open>c\<close>
  (the elements of the set among them): \<open>connected\<close> returns; \<open>connected(a,a)\<close> is true;
  \<open>connected(a,b)\<close> and \<open>connected(b,a)\<close> agree; \<open>connected(a,b)\<close> and \<open>connected(b,c)\<close> give
  \<open>connected(a,c)\<close>; after \<open>union(a,b)\<close>, \<open>connected(a,b)\<close> is true; and a \<open>find\<close>, with its path
  compression, changes the result of no later \<open>find\<close> or \<open>connected\<close>.
\<close>

theorem UnionFind_connected_equivalence:
  "(\<exists>u. apply_uf_ops (UnionFind_new elements) cs = Some u) \<and>
   (apply_uf_ops (UnionFind_new elements) cs = Some u \<longrightarrow>
      (\<exists>v. connected_value u a b = Some v) \<and>
      connected_value u a a = Some True \<and>
      connected_value u a b = connected_value u b a \<and>
      (connected_value u a b = Some True \<and> connected_value u b c = Some True
         \<longrightarrow> connected_value u a c = Some True) \<and>
      (\<exists>u'. UnionFind_union u a b = Some u' \<and> connected_value u' a b = Some True) \<and>
      (\<exists>r u'. UnionFind_find u a = Some (r, u') \<and>
               (\<forall>x. find_value u' x = find_value u x) \<and>
               (\<forall>x y. connected_value u' x y = connected_value u x y)))"
proof (intro conjI impI)
  show "\<exists>u. apply_uf_ops (UnionFind_new elements) cs = Some u"
    using apply_uf_ops_classes[OF new_chains_end, of elements cs] by auto
next
  assume "apply_uf_ops (UnionFind_new elements) cs = Some u"
  then have ce: "chains_end u" by (rule reachable_chains_end)
  note cv = connected_value_class[OF ce]
  show "\<exists>v. connected_value u a b = Some v" by (simp add: cv)
  show "connected_value u a a = Some True" by (simp add: cv same_class_refl[OF ce])
  show "connected_value u a b = connected_value u b a"
    unfolding cv using same_class_sym by auto
  show "connected_value u a c = Some True"
    if "connected_value u a b = Some True \<and> connected_value u b c = Some True"
    using that unfolding cv by (auto intro: same_class_trans)
  show "\<exists>u'. UnionFind_union u a b = Some u' \<and> connected_value u' a b = Some True"
  proof -
    from union_classes[OF ce, of a b] obtain u' where u': "UnionFind_union u a b = Some u'"
      "chains_end u'" "\<forall>x y. same_class u' x y =
              (same_class u x y \<or> (same_class u x a \<and> same_class u b y) \<or>
               (same_class u x b \<and> same_class u a y))" by blast
    have "same_class u' a b" using u'(3) same_class_refl[OF ce] by simp
    then show ?thesis using u'(1) connected_value_class[OF u'(2)] by simp
  qed
  show "\<exists>r u'. UnionFind_find u a = Some (r, u') \<and>
               (\<forall>x. find_value u' x = find_value u x) \<and>
               (\<forall>x y. connected_value u' x y = connected_value u x y)"
  proof -
    from find_classes[OF ce, of a] obtain r u' where f: "UnionFind_find u a = Some (r, u')"
      "chains_end u'" "\<forall>y r'. root_of (parent_get u') y r' = root_of (parent_get u) y r'" by blast
    have "find_value u' x = find_value u x" for x
    proof -
      from ce obtain rx where rx: "root_of (parent_get u) x rx" by (auto simp: chains_end_def)
      with f(3) have "root_of (parent_get u') x rx" by simp
      with rx show ?thesis by (simp add: find_value_root)
    qed
    moreover have "connected_value u' x y = connected_value u x y" for x y
      unfolding cv connected_value_class[OF f(2)] using f(3) by (simp add: same_class_def)
    ultimately show ?thesis using f(1) by blast
  qed
qed

text \<open>Over the elements 1, 2, 3, after \<open>union(1,2)\<close> and \<open>find(2)\<close>.\<close>

theorem UnionFind_connected_equivalence_witness:
  "apply_uf_ops (UnionFind_new [1, 2, 3]) [Union (Val 1) (Val 2), Find (Val 2)] = Some uf_12_3 \<and>
   connected_value uf_12_3 (Val 1) (Val 2) = Some True \<and>
   connected_value uf_12_3 (Val 2) (Val 1) = Some True \<and>
   connected_value uf_12_3 (Val 2) (Val 2) = Some True \<and>
   connected_value uf_12_3 (Val 1) (Val 1) = Some True \<and>
   connected_value uf_12_3 (Val 1) (Val 3) = Some False"
proof -
  have r: "apply_uf_ops (UnionFind_new [1, 2, 3]) [Union (Val 1) (Val 2), Find (Val 2)] = Some uf_12_3"
    unfolding uf_12_3_def by code_simp
  have c: "connected_value uf_12_3 (Val 1) (Val 2) = Some True"
    "connected_value uf_12_3 (Val 2) (Val 2) = Some True"
    "connected_value uf_12_3 (Val 1) (Val 3) = Some False"
    unfolding uf_12_3_def by code_simp+
  from UnionFind_connected_equivalence[of "[1, 2, 3]" "[Union (Val 1) (Val 2), Find (Val 2)]"
         uf_12_3 "Val 1" "Val 2" "Val 2"] r c
  show ?thesis by simp
qed

text \<open>
  C10: in every state reached from the structure built over \<open>elements\<close>, for values \<open>a\<close>, \<open>b\<close>
  outside \<open>elements\<close>, \<open>connected(a,b)\<close> returns true and \<open>find\<close> gives both the same
  representative; as long as the calls so far only mentioned elements of the set, that
  representative is \<open>undefined\<close>.
\<close>

theorem UnionFind_unknown_connected:
  "a \<notin> set elements \<and> b \<notin> set elements \<and> apply_uf_ops (UnionFind_new elements) cs = Some u \<longrightarrow>
     (\<exists>u'. UnionFind_connected u (Val a) (Val b) = Some (True, u')) \<and>
     (\<exists>r. find_value u (Val a) = Some r \<and> find_value u (Val b) = Some r) \<and>
     (members_only elements cs \<longrightarrow> find_value u (Val a) = Some Undefined)"
proof (intro impI, elim conjE)
  assume a: "a \<notin> set elements" and b: "b \<notin> set elements"
    and run: "apply_uf_ops (UnionFind_new elements) cs = Some u"
  from apply_uf_ops_classes[OF new_chains_end, of elements cs] run
  have ce: "chains_end u"
    and grow: "\<And>x y. same_class (UnionFind_new elements) x y \<Longrightarrow> same_class u x y" by auto
  have "same_class (UnionFind_new elements) (Val a) (Val b)"
    using new_roots[of elements "Val a"] new_roots[of elements "Val b"] a b
    by (auto simp: same_class_def image_iff)
  then have sc: "same_class u (Val a) (Val b)" by (rule grow)
  have 1: "\<exists>u'. UnionFind_connected u (Val a) (Val b) = Some (True, u')"
    using connected_classes[OF ce, of "Val a" "Val b"] sc by auto
  from sc obtain r where "root_of (parent_get u) (Val a) r" "root_of (parent_get u) (Val b) r"
    by (auto simp: same_class_def)
  then have 2: "\<exists>r. find_value u (Val a) = Some r \<and> find_value u (Val b) = Some r"
    by (auto simp: find_value_root)
  have 3: "find_value u (Val a) = Some Undefined" if "members_only elements cs"
  proof -
    from undefined_apart_run[OF new_undefined_apart that run] a
    have "root_of (parent_get u) (Val a) Undefined" by (auto simp: undefined_apart_def)
    then show ?thesis by (rule find_value_root)
  qed
  from 1 2 3 show "(\<exists>u'. UnionFind_connected u (Val a) (Val b) = Some (True, u')) \<and>
     (\<exists>r. find_value u (Val a) = Some r \<and> find_value u (Val b) = Some r) \<and>
     (members_only elements cs \<longrightarrow> find_value u (Val a) = Some Undefined)" by blast
qed

text \<open>7 and 9 are not among the elements 1, 2, 3, and are reported connected.\<close>

theorem UnionFind_unknown_connected_witness:
  "(7::nat) \<notin> set [1, 2, 3] \<and> (9::nat) \<notin> set [1, 2, 3] \<and>
   apply_uf_ops (UnionFind_new [1, 2, 3]) [Union (Val 1) (Val 2), Find (Val 2)] = Some uf_12_3 \<and>
   members_only [1::nat, 2, 3] [Union (Val 1) (Val 2), Find (Val 2)] \<and>
   map_option fst (UnionFind_connected uf_12_3 (Val 7) (Val 9)) = Some True \<and>
   find_value uf_12_3 (Val 7) = Some Undefined"
proof -
  have r: "apply_uf_ops (UnionFind_new [1, 2, 3]) [Union (Val 1) (Val 2), Find (Val 2)] = Some uf_12_3"
    unfolding uf_12_3_def by code_simp
  have m: "members_only [1::nat, 2, 3] [Union (Val 1) (Val 2), Find (Val 2)]"
    by (simp add: members_only_def)
  have n: "(7::nat) \<notin> set [1, 2, 3]" "(9::nat) \<notin> set [1, 2, 3]" by simp_all
  from UnionFind_unknown_connected[of 7 "[1, 2, 3]" 9 "[Union (Val 1) (Val 2), Find (Val 2)]" uf_12_3]
    r m n
  have "(\<exists>u'. UnionFind_connected uf_12_3 (Val 7) (Val 9) = Some (True, u')) \<and>
        find_value uf_12_3 (Val 7) = Some Undefined" by blast
  then have "map_option fst (UnionFind_connected uf_12_3 (Val 7) (Val 9)) = Some True \<and>
        find_value uf_12_3 (Val 7) = Some Undefined" by auto
  with r m n show ?thesis by blast
qed

section \<open>Claims about the traversals and the comparison of spanning trees\<close>


text \<open>
  C1: on the graph A-B, \<open>dfs('Z')\<close> is rejected with the unknown-node error, as the claim
  says, but \<open>bfs('Z')\<close> returns a result: \<open>bfs\<close> has no check of its arguments. (For any
  \<open>localeCompare\<close>.)
\<close>

theorem bfs_unknown_start_no_error:
  "dfs lc graph_AB ''Z'' None = Some (Inl UnknownNodeError) \<and>
   bfs lc graph_AB ''Z'' None =
     Some (Inr \<lparr>b_algorithm = ''BFS'', b_startNode = ''Z'', b_targetNode = None,
                b_visitOrder = [''Z''], b_path = [''Z''], b_found = True,
                b_distance = Some (Num (- 1)), b_distances = [(''Z'', Num 0)],
                b_statistics = \<lparr>bs_nodesVisited = 1, bs_totalNodes = 2, bs_pathLength = 1\<rparr>\<rparr>)"
  by (simp add: dfs_def bfs_def getNode_def Map_get_def graph_AB_eq bfs_loop.simps Let_def
      sorted_neighbors_def getNeighbors_def Map_values_def js_sort_def)

text \<open>
  C6: \<open>bfs(s)\<close> without a target returns, and its \<open>distances\<close> map holds \<open>d\<close> for \<open>v\<close> exactly
  when \<open>d\<close> is the least number of edges of a path from \<open>s\<close> to \<open>v\<close>; so a node has an entry
  exactly when it can be reached from \<open>s\<close>. (For every graph, every \<open>s\<close>, and every
  \<open>localeCompare\<close>.)
\<close>

theorem bfs_distances_are_hop_counts:
  "\<exists>r. bfs lc g s None = Some (Inr r) \<and>
        (\<forall>v d. (Map_get (b_distances r) v = Some d) =
                (\<exists>n. d = Num (int n) \<and> walk g s n v \<and> (\<forall>m. walk g s m v \<longrightarrow> n \<le> m)))"
proof -
  let ?init = "\<lparr>bfs_visited = [s], bfs_queue = [s], bfs_visitOrder = [],
               bfs_parent = [(s, None)], bfs_distance = [(s, Num 0)], bfs_found = False\<rparr>"
  let ?st = "bfs_loop lc g None ?init"
  from bfs_loop_inv[OF bfs_inv_initial, of g s lc]
  have inv: "bfs_inv g s ?st" and empty: "bfs_queue ?st = []" by auto
  from inv have dom: "\<And>v. (Map_get (bfs_distance ?st) v \<noteq> None) = (v \<in> set (bfs_visited ?st))"
    and len: "\<And>v d. Map_get (bfs_distance ?st) v = Some d \<Longrightarrow> \<exists>n. d = Num (int n) \<and> walk g s n v"
    unfolding bfs_inv_def by auto
  have "(Map_get (bfs_distance ?st) v = Some d) =
          (\<exists>n. d = Num (int n) \<and> walk g s n v \<and> (\<forall>m. walk g s m v \<longrightarrow> n \<le> m))" for v d
  proof
    assume vd: "Map_get (bfs_distance ?st) v = Some d"
    from len[OF vd] obtain n where n: "d = Num (int n)" "walk g s n v" by auto
    have "dist_of ?st v = n" using vd n by (simp add: dist_of_def)
    with bfs_inv_final[OF inv empty] have "\<forall>m. walk g s m v \<longrightarrow> n \<le> m" by auto
    with n show "\<exists>n. d = Num (int n) \<and> walk g s n v \<and> (\<forall>m. walk g s m v \<longrightarrow> n \<le> m)" by blast
  next
    assume "\<exists>n. d = Num (int n) \<and> walk g s n v \<and> (\<forall>m. walk g s m v \<longrightarrow> n \<le> m)"
    then obtain n where n: "d = Num (int n)" "walk g s n v" "\<forall>m. walk g s m v \<longrightarrow> n \<le> m" by auto
    from bfs_inv_final[OF inv empty n(2)] have v: "v \<in> set (bfs_visited ?st)"
      and le: "dist_of ?st v \<le> n" by auto
    from v dom obtain d' where d': "Map_get (bfs_distance ?st) v = Some d'" by auto
    from len[OF d'] obtain n' where n': "d' = Num (int n')" "walk g s n' v" by auto
    have "dist_of ?st v = n'" using d' n' by (simp add: dist_of_def)
    with le n(3) n'(2) have "n' = n" by auto
    with d' n' n(1) show "Map_get (bfs_distance ?st) v = Some d" by simp
  qed
  then show ?thesis by (simp add: bfs_result_no_target)
qed

text \<open>On the graph A-B from A: B is one hop away, and not zero hops.\<close>

theorem bfs_distances_are_hop_counts_witness:
  "map_option (map_sum id b_distances) (bfs (\<lambda>a b. 0) graph_AB ''A'' None)
     = Some (Inr [(''A'', Num 0), (''B'', Num 1)]) \<and>
   walk graph_AB ''A'' 1 ''B'' \<and> \<not> walk graph_AB ''A'' 0 ''B''"
proof -
  have ev: "map_option (map_sum id b_distances) (bfs (\<lambda>a b. 0) graph_AB ''A'' None)
     = Some (Inr [(''A'', Num 0), (''B'', Num 1)])"
    by (simp add: bfs_result_no_target graph_AB_eq bfs_loop.simps Let_def
        sorted_neighbors_def getNeighbors_def Map_values_def js_sort_def Set_add_def
        bfs_visit_def next_distance_def Map_get_def)
  from bfs_distances_are_hop_counts[of "\<lambda>a b. 0" graph_AB "''A''"] obtain r where
    r: "bfs (\<lambda>a b. 0) graph_AB ''A'' None = Some (Inr r)"
    and iff: "\<And>v d. (Map_get (b_distances r) v = Some d) =
                (\<exists>n. d = Num (int n) \<and> walk graph_AB ''A'' n v \<and>
                     (\<forall>m. walk graph_AB ''A'' m v \<longrightarrow> n \<le> m))" by blast
  from ev r have "b_distances r = [(''A'', Num 0), (''B'', Num 1)]" by simp
  then have "Map_get (b_distances r) ''B'' = Some (Num 1)" by (simp add: Map_get_def)
  with iff[of "''B''" "Num 1"] obtain n where
    "Num 1 = Num (int n)" "walk graph_AB ''A'' n ''B''" "\<forall>m. walk graph_AB ''A'' m ''B'' \<longrightarrow> n \<le> m"
    by auto
  then have "walk graph_AB ''A'' 1 ''B''" "\<not> walk graph_AB ''A'' 0 ''B''"
    by (auto simp: int_eq_iff)
  with ev show ?thesis by simp
qed

text \<open>
  C3: the one-edge lists A-B(1) and C-D(1) have no edge in common, and \<open>areMSTsIdentical\<close>
  returns true for them: \<open>Math.min\<close> and \<open>Math.max\<close> turn every non-numeric id into \<open>NaN\<close>, so
  the key of both edges is \<open>NaN-NaN-1\<close>.
\<close>

theorem areMSTsIdentical_different_edges:
  "areMSTsIdentical [edge_AB] [edge_CD] = Some True \<and>
   (source edge_AB, target edge_AB) \<noteq> (source edge_CD, target edge_CD) \<and>
   (source edge_AB, target edge_AB) \<noteq> (target edge_CD, source edge_CD)"
  by code_simp

section \<open>The claim about the two spanning-tree algorithms\<close>


text \<open>
  C7, as stated, fails on directed graphs, which the engine supports and neither algorithm
  rejects: on the weighted directed graph with the edges A->B (1) and B->A (5), where every
  node reaches every node, \<open>kruskal\<close> takes A->B for a total of 1, while \<open>prim('B')\<close> follows
  the only edge out of B for a total of 5.
\<close>

theorem kruskal_prim_differ_directed:
  "isWeighted graph_directed \<and> connected_graph graph_directed \<and> exact_sums graph_directed \<and>
   Map_has (nodes graph_directed) ''B'' \<and>
   map_option (map_sum id kr_totalWeight) (kruskal graph_directed) = Some (Inr (Num 1)) \<and>
   map_sum id pr_totalWeight (prim graph_directed (Some ''B'')) = Inr (Num 5) \<and>
   \<not> sameWeight (Num 1) (Num 5)"
  using connected_directed kruskal_directed prim_directed exact_sums_directed sameWeight_1_5
  by simp (simp add: graph_directed_eq Map_has_def)

text \<open>
  C7 (amended): for every weighted undirected graph whose edges join existing nodes, no two
  of them the same pair (invariants 1 and 2), in which every node reaches every node, and
  whose weights are integers with magnitudes that sum to \<open>2^53\<close> at most, and for every start
  node of the graph (or none), \<open>kruskal()\<close> and \<open>prim(start)\<close> return and their total weights
  are the same number \<open>w\<close>, hence differ by less than 0.001; no spanning tree of the graph
  weighs less than \<open>w\<close>, and if the graph has a node some spanning tree weighs exactly \<open>w\<close>.
\<close>

theorem kruskal_prim_same_weight:
  "mst_ready g \<and> (case startNodeId of None \<Rightarrow> True | Some s \<Rightarrow> Map_has (nodes g) s) \<longrightarrow>
     (\<exists>kr pr w. kruskal g = Some (Inr kr) \<and> prim g startNodeId = Inr pr \<and>
               kr_totalWeight kr = Num w \<and> pr_totalWeight pr = Num w \<and>
               sameWeight (kr_totalWeight kr) (pr_totalWeight pr) \<and>
               (\<forall>T. spanning_tree g T \<longrightarrow> w \<le> weight_sum T) \<and>
               (nodes g \<noteq> [] \<longrightarrow> (\<exists>F. spanning_tree g F \<and> w = weight_sum F)))"
proof (intro impI, elim conjE)
  assume "mst_ready g" "case startNodeId of None \<Rightarrow> True | Some s \<Rightarrow> Map_has (nodes g) s"
  from mst_weights_agree[OF this] obtain kr pr w where
    "kruskal g = Some (Inr kr)" "prim g startNodeId = Inr pr"
    "kr_totalWeight kr = Num w" "pr_totalWeight pr = Num w"
    "\<forall>T. spanning_tree g T \<longrightarrow> w \<le> weight_sum T"
    "nodes g \<noteq> [] \<longrightarrow> (\<exists>F. spanning_tree g F \<and> w = weight_sum F)" by blast
  then show "\<exists>kr pr w. kruskal g = Some (Inr kr) \<and> prim g startNodeId = Inr pr \<and>
               kr_totalWeight kr = Num w \<and> pr_totalWeight pr = Num w \<and>
               sameWeight (kr_totalWeight kr) (pr_totalWeight pr) \<and>
               (\<forall>T. spanning_tree g T \<longrightarrow> w \<le> weight_sum T) \<and>
               (nodes g \<noteq> [] \<longrightarrow> (\<exists>F. spanning_tree g F \<and> w = weight_sum F))"
    by (auto simp: sameWeight_eq)
qed

text \<open>On the triangle A-B (1), B-C (2), A-C (4), starting Prim from C: both totals are 3.\<close>

theorem kruskal_prim_same_weight_witness:
  "mst_ready graph_triangle \<and> Map_has (nodes graph_triangle) ''C'' \<and>
   map_option (map_sum id kr_totalWeight) (kruskal graph_triangle) = Some (Inr (Num 3)) \<and>
   map_sum id pr_totalWeight (prim graph_triangle (Some ''C'')) = Inr (Num 3)"
proof -
  have c: "Map_has (nodes graph_triangle) ''C''"
    by (simp add: graph_triangle_eq Map_has_def)
  with kruskal_prim_same_weight[of graph_triangle "Some ''C''"] mst_ready_triangle
  obtain kr pr w where r: "kruskal graph_triangle = Some (Inr kr)"
    "prim graph_triangle (Some ''C'') = Inr pr" "kr_totalWeight kr = Num w"
    "pr_totalWeight pr = Num w"
    by auto
  from kruskal_triangle r(1,3) have "w = 3" by simp
  with r have "map_sum id pr_totalWeight (prim graph_triangle (Some ''C'')) = Inr (Num 3)" by simp
  with mst_ready_triangle c kruskal_triangle show ?thesis by simp
qed

end
